theory Spec2Isabelle
  imports Main "HOL-Library.AList"
begin

section \<open>Data model\<close>

text \<open>
  A Python \<^verbatim>\<open>str\<close> is a sequence of Unicode code points. A code point is modelled by
  its number, a string by the list of its code points, so that \<open>length\<close> counts what
  Python's \<^verbatim>\<open>len\<close> counts and \<open>inp ! i\<close> is \<^verbatim>\<open>inp[i]\<close> for \<open>i < length inp\<close>.
  \<open>str_of\<close> turns an ASCII literal into such a string.
\<close>

type_synonym codepoint = nat
type_synonym pystr = "codepoint list"
type_synonym byte = nat

definition str_of :: "string \<Rightarrow> pystr" where
  "str_of s = map of_char s"

abbreviation QUOTE :: codepoint where "QUOTE \<equiv> 34"
abbreviation BACKSLASH :: codepoint where "BACKSLASH \<equiv> 92"
abbreviation DOT :: codepoint where "DOT \<equiv> 46"
abbreviation COMMA :: codepoint where "COMMA \<equiv> 44"
abbreviation COLON :: codepoint where "COLON \<equiv> 58"
abbreviation LBRACE :: codepoint where "LBRACE \<equiv> 123"
abbreviation RBRACE :: codepoint where "RBRACE \<equiv> 125"
abbreviation LBRACKET :: codepoint where "LBRACKET \<equiv> 91"
abbreviation RBRACKET :: codepoint where "RBRACKET \<equiv> 93"

text \<open>
  The decoded value. \<^verbatim>\<open>int(...)\<close> gives an unbounded integer. A float is represented by
  the lexeme handed to \<^verbatim>\<open>float(...)\<close>: the model does not round to a double, so two
  equal \<open>JFloat\<close> values denote equal Python floats, while different lexemes may denote
  the same float. A \<^verbatim>\<open>dict\<close> keeps its keys in insertion order and \<^verbatim>\<open>d[k] = v\<close>
  replaces the value of a key already present where it stands, which is
  \<open>AList.update\<close> on an association list.
\<close>

datatype json =
    JNull
  | JBool bool
  | JInt int
  | JFloat pystr
  | JString pystr
  | JArray "json list"
  | JObject "(pystr \<times> json) list"

text \<open>
  The exceptions raised inside the module: the module's own \<^verbatim>\<open>InvalidJSONError\<close> with
  its message, Python's \<^verbatim>\<open>IndexError\<close> from \<^verbatim>\<open>inp[i]\<close> out of range, the \<^verbatim>\<open>ValueError\<close>
  of \<^verbatim>\<open>int(...)\<close>, which \<^verbatim>\<open>parse_number\<close> catches, and the two codec errors of
  \<^verbatim>\<open>bytes(..., "utf-8").decode("unicode_escape")\<close>.
  The recursion depth and the memory of the interpreter are outside the model.
\<close>

datatype error =
    InvalidJSONError pystr
  | IndexError
  | ValueError
  | UnicodeEncodeError
  | UnicodeDecodeError

section \<open>Cursor utilities\<close>

text \<open>
  \<^verbatim>\<open>\s\<close> of the \<^verbatim>\<open>re\<close> module on a \<^verbatim>\<open>str\<close> pattern is Unicode whitespace
  (\<^verbatim>\<open>str.isspace\<close>).
\<close>

definition is_space :: "codepoint \<Rightarrow> bool" where
  "is_space c \<longleftrightarrow>
     (9 \<le> c \<and> c \<le> 13) \<or> (28 \<le> c \<and> c \<le> 32) \<or> c = 0x85 \<or> c = 0xA0 \<or> c = 0x1680 \<or>
     (0x2000 \<le> c \<and> c \<le> 0x200A) \<or> c = 0x2028 \<or> c = 0x2029 \<or> c = 0x202F \<or>
     c = 0x205F \<or> c = 0x3000"

text \<open>
  \<^verbatim>\<open>re.compile(r"\s*").match(inp, start_index).end()\<close>: the match starts at
  \<^verbatim>\<open>start_index\<close>, clamped to the length of the string, and takes the longest run of
  whitespace.
\<close>

definition skip_whitespace :: "pystr \<Rightarrow> nat \<Rightarrow> nat" where
  "skip_whitespace inp start_index =
     (let pos = min start_index (length inp)
      in pos + length (takeWhile is_space (drop pos inp)))"

text \<open>Python's \<^verbatim>\<open>str(index)\<close> for a non-negative integer.\<close>

fun str_nat :: "nat \<Rightarrow> pystr" where
  "str_nat n = (if n < 10 then [48 + n] else str_nat (n div 10) @ [48 + n mod 10])"

declare str_nat.simps [simp del]

text \<open>
  The default message of \<^verbatim>\<open>raise_invalid_json_error\<close>, formatted. No call in the module
  passes a \<^verbatim>\<open>message\<close>, so the default template is the only one that is ever formatted.
\<close>

definition error_message :: "pystr \<Rightarrow> nat \<Rightarrow> pystr" where
  "error_message inp index =
     str_of ''Unexpected token at char('' @ str_nat index @ str_of ''):'' @ [10] @
     inp @ [10] @ replicate index 32 @ str_of ''^''"

definition raise_invalid_json_error :: "pystr \<Rightarrow> nat \<Rightarrow> error + 'a" where
  "raise_invalid_json_error inp index = Inl (InvalidJSONError (error_message inp index))"

text \<open>The slice \<^verbatim>\<open>inp[i:j]\<close> for \<open>0 \<le> i\<close> and \<open>0 \<le> j\<close>; a slice never raises.\<close>

definition slice :: "pystr \<Rightarrow> nat \<Rightarrow> nat \<Rightarrow> pystr" where
  "slice inp i j = take (j - i) (drop i inp)"

section \<open>The codec of the string parser\<close>

text \<open>
  \<^verbatim>\<open>bytes(s, "utf-8")\<close>: UTF-8 of each code point; a surrogate cannot be encoded.
  A number from \<open>0x110000\<close> on is not a code point of any Python string; the model
  gives it the error as well.
\<close>

definition utf8_char :: "codepoint \<Rightarrow> error + byte list" where
  "utf8_char c =
     (if c < 0x80 then Inr [c]
      else if c < 0x800 then Inr [0xC0 + c div 64, 0x80 + c mod 64]
      else if 0xD800 \<le> c \<and> c \<le> 0xDFFF then Inl UnicodeEncodeError
      else if c < 0x10000 then
        Inr [0xE0 + c div 4096, 0x80 + (c div 64) mod 64, 0x80 + c mod 64]
      else if c < 0x110000 then
        Inr [0xF0 + c div 262144, 0x80 + (c div 4096) mod 64,
             0x80 + (c div 64) mod 64, 0x80 + c mod 64]
      else Inl UnicodeEncodeError)"

fun utf8_encode :: "pystr \<Rightarrow> error + byte list" where
  "utf8_encode [] = Inr []"
| "utf8_encode (c # cs) =
     (case utf8_char c of
        Inl e \<Rightarrow> Inl e
      | Inr bs \<Rightarrow> (case utf8_encode cs of Inl e \<Rightarrow> Inl e | Inr rest \<Rightarrow> Inr (bs @ rest)))"

definition is_hex :: "byte \<Rightarrow> bool" where
  "is_hex c \<longleftrightarrow> (48 \<le> c \<and> c \<le> 57) \<or> (97 \<le> c \<and> c \<le> 102) \<or> (65 \<le> c \<and> c \<le> 70)"

definition hex_digit :: "byte \<Rightarrow> nat" where
  "hex_digit c = (if 48 \<le> c \<and> c \<le> 57 then c - 48
                  else if 97 \<le> c \<and> c \<le> 102 then c - 87
                  else c - 55)"

definition hex_value :: "byte list \<Rightarrow> nat" where
  "hex_value cs = foldl (\<lambda>ch c. 16 * ch + hex_digit c) 0 cs"

definition is_octal :: "byte \<Rightarrow> bool" where
  "is_octal c \<longleftrightarrow> 48 \<le> c \<and> c \<le> 55"

text \<open>
  The table of Unicode character names behind \<^verbatim>\<open>\N{...}\<close> belongs to the interpreter;
  it is a parameter \<open>names\<close> of the decoder and of every parser that reaches it.
\<close>

type_synonym names = "byte list \<Rightarrow> codepoint option"

definition no_names :: names where
  "no_names n = None"

text \<open>
  \<^verbatim>\<open>.decode("unicode_escape")\<close> with strict error handling. \<open>escape_step\<close> is one
  round of the codec's loop at the byte \<open>c\<close> with the bytes \<open>s\<close> after it: the characters
  written and the bytes left. A byte that is not a backslash is the Latin-1 character
  of the same number; after a backslash come the escapes of Python string literals; an
  unknown escape keeps the backslash and the character.
\<close>

definition escape_step :: "names \<Rightarrow> byte \<Rightarrow> byte list \<Rightarrow> error + (pystr \<times> byte list)" where
  "escape_step N c s =
     (let hexescape = (\<lambda>count rest.
             if length rest < count \<or> \<not> list_all is_hex (take count rest)
               then Inl UnicodeDecodeError
             else if hex_value (take count rest) > 0x10FFFF then Inl UnicodeDecodeError
             else Inr ([hex_value (take count rest)], drop count rest))
      in if c \<noteq> BACKSLASH then Inr ([c], s)
         else case s of
           [] \<Rightarrow> Inl UnicodeDecodeError
         | e # t \<Rightarrow>
             if e = 10 then Inr ([], t)
             else if e = BACKSLASH then Inr ([BACKSLASH], t)
             else if e = 39 then Inr ([39], t)
             else if e = QUOTE then Inr ([QUOTE], t)
             else if e = 98 then Inr ([8], t)
             else if e = 102 then Inr ([12], t)
             else if e = 116 then Inr ([9], t)
             else if e = 110 then Inr ([10], t)
             else if e = 114 then Inr ([13], t)
             else if e = 118 then Inr ([11], t)
             else if e = 97 then Inr ([7], t)
             else if is_octal e then
               (let ds = e # takeWhile is_octal (take 2 t)
                in Inr ([foldl (\<lambda>ch d. 8 * ch + (d - 48)) 0 ds], drop (length ds - 1) t))
             else if e = 120 then hexescape 2 t
             else if e = 117 then hexescape 4 t
             else if e = 85 then hexescape 8 t
             else if e = 78 then
               (case t of
                  [] \<Rightarrow> Inl UnicodeDecodeError
                | b # u \<Rightarrow>
                    if b \<noteq> LBRACE then Inl UnicodeDecodeError
                    else let name = takeWhile (\<lambda>x. x \<noteq> RBRACE) u;
                             after = drop (length name) u
                         in if after = [] \<or> name = [] then Inl UnicodeDecodeError
                            else (case N name of
                                    None \<Rightarrow> Inl UnicodeDecodeError
                                  | Some ch \<Rightarrow> Inr ([ch], tl after)))
             else Inr ([BACKSLASH, e], t))"

lemma escape_step_shorter:
  "escape_step N c s = Inr (out, rest) \<Longrightarrow> length rest \<le> length s"
  by (auto simp: escape_step_def Let_def le_SucI split: if_splits list.splits option.splits)

function unicode_escape_decode :: "names \<Rightarrow> byte list \<Rightarrow> error + pystr" where
  "unicode_escape_decode N [] = Inr []"
| "unicode_escape_decode N (c # s) =
     (case escape_step N c s of
        Inl e \<Rightarrow> Inl e
      | Inr (out, rest) \<Rightarrow>
          (case unicode_escape_decode N rest of
             Inl e \<Rightarrow> Inl e
           | Inr more \<Rightarrow> Inr (out @ more)))"
  by pat_completeness auto
termination
  by (relation "measure (\<lambda>(N, s). length s)")
     (auto simp: less_Suc_eq_le dest: escape_step_shorter)

section \<open>Scalar parsers\<close>

text \<open>
  The scan of \<^verbatim>\<open>parse_string\<close>:
  \<^verbatim>\<open>while inp[end_index] != "\"": end_index += 2 if inp[end_index] == "\\" else 1\<close>.
  Reading \<^verbatim>\<open>inp[end_index]\<close> past the end raises \<^verbatim>\<open>IndexError\<close>.
\<close>

function parse_string_scan :: "pystr \<Rightarrow> nat \<Rightarrow> error + nat" where
  "parse_string_scan inp end_index =
     (if end_index \<ge> length inp then Inl IndexError
      else if inp ! end_index = QUOTE then Inr end_index
      else if inp ! end_index = BACKSLASH then parse_string_scan inp (end_index + 2)
      else parse_string_scan inp (end_index + 1))"
  by pat_completeness auto
termination
  by (relation "measure (\<lambda>(inp, end_index). length inp - end_index)") auto

declare parse_string_scan.simps [simp del]

definition parse_string :: "names \<Rightarrow> pystr \<Rightarrow> nat \<Rightarrow> error + (pystr \<times> nat)" where
  "parse_string N inp index =
     (if index \<ge> length inp then Inl IndexError
      else if inp ! index \<noteq> QUOTE then raise_invalid_json_error inp index
      else let start_index = index + 1 in
        case parse_string_scan inp start_index of
          Inl e \<Rightarrow> Inl e
        | Inr end_index \<Rightarrow>
            (case utf8_encode (slice inp start_index end_index) of
               Inl e \<Rightarrow> Inl e
             | Inr bs \<Rightarrow>
                 (case unicode_escape_decode N bs of
                    Inl e \<Rightarrow> Inl e
                  | Inr result \<Rightarrow> Inr (result, end_index))))"

definition is_digit :: "codepoint \<Rightarrow> bool" where
  "is_digit c \<longleftrightarrow> 48 \<le> c \<and> c \<le> 57"

text \<open>
  \<^verbatim>\<open>int(result_string)\<close>. The string handed to it has no dot (\<^verbatim>\<open>dot_count\<close> is 0), so
  it consists of the digits \<^verbatim>\<open>0\<close> to \<^verbatim>\<open>9\<close> that the loop has taken. \<^verbatim>\<open>int\<close> raises
  \<^verbatim>\<open>ValueError\<close> on the empty string and on a string with more digits than the
  interpreter's limit for this conversion, \<^verbatim>\<open>sys.get_int_max_str_digits()\<close>: 4300 unless
  configured otherwise, in CPython from 3.10.7 on; leading zeros count. Otherwise it
  gives the unbounded integer with that decimal notation.
\<close>

definition int_max_str_digits :: nat where
  "int_max_str_digits = 4300"

definition int_of_digits :: "pystr \<Rightarrow> int" where
  "int_of_digits ds = foldl (\<lambda>a c. 10 * a + (int c - 48)) 0 ds"

definition py_int :: "pystr \<Rightarrow> error + int" where
  "py_int s =
     (if s \<noteq> [] \<and> list_all is_digit s \<and> length s \<le> int_max_str_digits
        then Inr (int_of_digits s)
      else Inl ValueError)"

text \<open>
  The loop of \<^verbatim>\<open>parse_number\<close> with its state \<^verbatim>\<open>index\<close>, \<^verbatim>\<open>result_string\<close>,
  \<^verbatim>\<open>dot_count\<close>; it returns the state at which \<^verbatim>\<open>inp[index] in "0123456789."\<close> is false.
  \<^verbatim>\<open>InvalidJSONError\<close> is not a \<^verbatim>\<open>ValueError\<close> and \<^verbatim>\<open>IndexError\<close> is not one either, so
  both pass the handler of \<^verbatim>\<open>parse_number\<close>.
\<close>

function parse_number_loop ::
    "pystr \<Rightarrow> nat \<Rightarrow> pystr \<Rightarrow> nat \<Rightarrow> error + (nat \<times> pystr \<times> nat)" where
  "parse_number_loop inp index result_string dot_count =
     (if index \<ge> length inp then Inl IndexError
      else if is_digit (inp ! index) \<or> inp ! index = DOT then
        (let result_string' = result_string @ [inp ! index] in
         if inp ! index = DOT then
           (let dot_count' = dot_count + 1 in
            if dot_count' > 1 then raise_invalid_json_error inp index
            else if index + 1 \<ge> length inp then Inl IndexError
            else if \<not> is_digit (inp ! (index + 1)) then raise_invalid_json_error inp index
            else parse_number_loop inp (index + 1) result_string' dot_count')
         else parse_number_loop inp (index + 1) result_string' dot_count)
      else Inr (index, result_string, dot_count))"
  by pat_completeness auto
termination
  by (relation "measure (\<lambda>(inp, index, rs, dc). length inp - index)") auto

declare parse_number_loop.simps [simp del]

text \<open>
  \<^verbatim>\<open>int(inp[index])\<close> opens \<^verbatim>\<open>parse_number\<close>. On one of \<^verbatim>\<open>0\<close> to \<^verbatim>\<open>9\<close> it succeeds. On
  any other character the function raises \<^verbatim>\<open>InvalidJSONError\<close> at \<^verbatim>\<open>index\<close>: either
  \<^verbatim>\<open>int\<close> raises \<^verbatim>\<open>ValueError\<close> at once, or (a decimal digit of another script) the loop
  takes no character and \<^verbatim>\<open>int("")\<close> raises it, with \<^verbatim>\<open>index\<close> unchanged; the handler
  is the same. After the loop \<^verbatim>\<open>result_string\<close> is a digit string with at most one dot
  between digits. With a dot it goes to \<^verbatim>\<open>float\<close>, which does not raise on such a
  string (a lexeme too large for a double gives \<^verbatim>\<open>inf\<close>). Without a dot it goes to
  \<^verbatim>\<open>int\<close>, whose \<^verbatim>\<open>ValueError\<close> the handler turns into \<^verbatim>\<open>InvalidJSONError\<close> at the
  value \<^verbatim>\<open>index\<close> has then, the offset where the loop stopped.
\<close>

definition parse_number :: "pystr \<Rightarrow> nat \<Rightarrow> error + (json \<times> nat)" where
  "parse_number inp index =
     (if index \<ge> length inp then Inl IndexError
      else if \<not> is_digit (inp ! index) then raise_invalid_json_error inp index
      else case parse_number_loop inp index [] 0 of
          Inl e \<Rightarrow> Inl e
        | Inr (index', result_string, dot_count) \<Rightarrow>
            if dot_count > 0 then Inr (JFloat result_string, index' - 1)
            else (case py_int result_string of
                    Inl ValueError \<Rightarrow> raise_invalid_json_error inp index'
                  | Inl e \<Rightarrow> Inl e
                  | Inr n \<Rightarrow> Inr (JInt n, index' - 1)))"

definition parse_true :: "pystr \<Rightarrow> nat \<Rightarrow> error + (json \<times> nat)" where
  "parse_true inp index =
     (if index \<ge> length inp then Inl IndexError
      else if inp ! index \<noteq> 116 then raise_invalid_json_error inp index
      else if slice inp index (index + 4) \<noteq> str_of ''true''
        then raise_invalid_json_error inp index
      else Inr (JBool True, index + 3))"

text \<open>The source compares the five characters of the slice with \<^verbatim>\<open>"true"\<close>.\<close>

definition parse_false :: "pystr \<Rightarrow> nat \<Rightarrow> error + (json \<times> nat)" where
  "parse_false inp index =
     (if index \<ge> length inp then Inl IndexError
      else if inp ! index \<noteq> 102 then raise_invalid_json_error inp index
      else if slice inp index (index + 5) \<noteq> str_of ''true''
        then raise_invalid_json_error inp index
      else Inr (JBool False, index + 4))"

definition parse_null :: "pystr \<Rightarrow> nat \<Rightarrow> error + (json \<times> nat)" where
  "parse_null inp index =
     (if index \<ge> length inp then Inl IndexError
      else if inp ! index \<noteq> 110 then raise_invalid_json_error inp index
      else if slice inp index (index + 4) \<noteq> str_of ''null''
        then raise_invalid_json_error inp index
      else Inr (JNull, index + 3))"

section \<open>Structural parsers, dispatcher and entry point\<close>

text \<open>
  \<open>parse_object_loop\<close> and \<open>parse_array_loop\<close> are the \<^verbatim>\<open>while\<close> loops of
  \<^verbatim>\<open>parse_object\<close> and \<^verbatim>\<open>parse_array\<close> with their state \<^verbatim>\<open>index\<close>, \<^verbatim>\<open>result\<close>;
  \<open>inner_parse_json\<close> is \<^verbatim>\<open>_parse_json\<close>. Every \<^verbatim>\<open>inp[i]\<close> is preceded by its range
  check.
\<close>

function (domintros)
    parse_object :: "names \<Rightarrow> pystr \<Rightarrow> nat \<Rightarrow> error + (json \<times> nat)"
and parse_object_loop ::
      "names \<Rightarrow> pystr \<Rightarrow> nat \<Rightarrow> (pystr \<times> json) list \<Rightarrow> error + (json \<times> nat)"
and parse_array :: "names \<Rightarrow> pystr \<Rightarrow> nat \<Rightarrow> error + (json \<times> nat)"
and parse_array_loop :: "names \<Rightarrow> pystr \<Rightarrow> nat \<Rightarrow> json list \<Rightarrow> error + (json \<times> nat)"
and inner_parse_json :: "names \<Rightarrow> pystr \<Rightarrow> nat \<Rightarrow> error + (json \<times> nat)"
where
  "parse_object N inp index =
     (if index \<ge> length inp then Inl IndexError
      else if inp ! index \<noteq> LBRACE then raise_invalid_json_error inp index
      else parse_object_loop N inp index [])"
| "parse_object_loop N inp index result =
     (if index \<ge> length inp then Inl IndexError
      else if inp ! index = RBRACE then Inr (JObject result, index)
      else let key_start_index = skip_whitespace inp (index + 1) in
        case parse_string N inp key_start_index of
          Inl e \<Rightarrow> Inl e
        | Inr (key, key_end_index) \<Rightarrow>
            let colon_index = skip_whitespace inp (key_end_index + 1) in
            if colon_index \<ge> length inp then Inl IndexError
            else if inp ! colon_index \<noteq> COLON then raise_invalid_json_error inp index
            else let value_start_index = skip_whitespace inp (colon_index + 1) in
              case inner_parse_json N inp value_start_index of
                Inl e \<Rightarrow> Inl e
              | Inr (value, value_end_index) \<Rightarrow>
                  let result' = AList.update key value result;
                      next_character_index = skip_whitespace inp (value_end_index + 1) in
                  if next_character_index \<ge> length inp then Inl IndexError
                  else if inp ! next_character_index = COMMA then
                    (let peek = skip_whitespace inp (next_character_index + 1) in
                     if peek \<ge> length inp then Inl IndexError
                     else if inp ! peek = RBRACE
                       then raise_invalid_json_error inp (next_character_index + 1)
                     else parse_object_loop N inp next_character_index result')
                  else if inp ! next_character_index \<noteq> RBRACE
                    then raise_invalid_json_error inp next_character_index
                  else parse_object_loop N inp next_character_index result')"
| "parse_array N inp index =
     (if index \<ge> length inp then Inl IndexError
      else if inp ! index \<noteq> LBRACKET then raise_invalid_json_error inp index
      else parse_array_loop N inp index [])"
| "parse_array_loop N inp index result =
     (if index \<ge> length inp then Inl IndexError
      else if inp ! index = RBRACKET then Inr (JArray result, index)
      else let value_start_index = skip_whitespace inp (index + 1) in
        case inner_parse_json N inp value_start_index of
          Inl e \<Rightarrow> Inl e
        | Inr (value, value_end_index) \<Rightarrow>
            let result' = result @ [value];
                next_character_index = skip_whitespace inp (value_end_index + 1) in
            if next_character_index \<ge> length inp then Inl IndexError
            else if inp ! next_character_index = COMMA then
              (let peek = skip_whitespace inp (next_character_index + 1) in
               if peek \<ge> length inp then Inl IndexError
               else if inp ! peek = RBRACKET
                 then raise_invalid_json_error inp (next_character_index + 1)
               else parse_array_loop N inp next_character_index result')
            else if inp ! next_character_index \<noteq> RBRACKET
              then raise_invalid_json_error inp next_character_index
            else parse_array_loop N inp next_character_index result')"
| "inner_parse_json N inp index =
     (if index \<ge> length inp then Inl IndexError
      else let first_char = inp ! index in
        if first_char = LBRACE then parse_object N inp index
        else if first_char = LBRACKET then parse_array N inp index
        else if first_char = QUOTE then
          (case parse_string N inp index of
             Inl e \<Rightarrow> Inl e
           | Inr (s, end_index) \<Rightarrow> Inr (JString s, end_index))
        else if first_char = 116 then parse_true inp index
        else if first_char = 102 then parse_false inp index
        else if first_char = 110 then parse_null inp index
        else parse_number inp index)"
  by pat_completeness auto


text \<open>
  Termination: every parser that returns gives an end offset inside the input and not
  before its start, so each round of a loop moves the offset forward.
\<close>

lemma skip_whitespace_le: "skip_whitespace inp i \<le> length inp"
proof -
  have "length (takeWhile is_space (drop (min i (length inp)) inp)) \<le> length inp - min i (length inp)"
    using length_takeWhile_le[of is_space "drop (min i (length inp)) inp"] by simp
  then show ?thesis by (simp add: skip_whitespace_def Let_def)
qed

lemma skip_whitespace_ge: "i \<le> length inp \<Longrightarrow> i \<le> skip_whitespace inp i"
  by (simp add: skip_whitespace_def Let_def min_def)

lemma parse_string_scan_bounds:
  "parse_string_scan inp i = Inr e \<Longrightarrow> i \<le> e \<and> e < length inp"
proof (induction inp i rule: parse_string_scan.induct)
  case (1 inp i)
  then show ?case
    by (subst (asm) (3) parse_string_scan.simps) (auto split: if_splits)
qed

lemma parse_string_bounds:
  "parse_string N inp i = Inr (s, e) \<Longrightarrow> i < e \<and> e < length inp"
  by (auto simp: parse_string_def Let_def raise_invalid_json_error_def
           split: if_splits sum.splits dest!: parse_string_scan_bounds)

lemma parse_number_loop_bounds:
  "parse_number_loop inp i rs dc = Inr (i', rs', dc') \<Longrightarrow> i \<le> i' \<and> i' < length inp"
proof (induction inp i rs dc rule: parse_number_loop.induct)
  case (1 inp i rs dc)
  note r = "1.prems"[unfolded parse_number_loop.simps[of inp i rs dc]]
  from r have il: "i < length inp" by (auto split: if_splits)
  show ?case
  proof (cases "is_digit (inp ! i) \<or> inp ! i = DOT")
    case False
    with r il show ?thesis by auto
  next
    case nc: True
    show ?thesis
    proof (cases "inp ! i = DOT")
      case True
      with r il nc have c: "\<not> dc + 1 > 1" "\<not> length inp \<le> i + 1" "\<not> \<not> is_digit (inp ! (i + 1))"
        and rec: "parse_number_loop inp (i + 1) (rs @ [inp ! i]) (dc + 1) = Inr (i', rs', dc')"
        by (auto simp: Let_def raise_invalid_json_error_def split: if_splits)
      from "1.IH"(1)[OF _ nc refl True refl c rec] il show ?thesis by simp
    next
      case False
      with r il nc have rec: "parse_number_loop inp (i + 1) (rs @ [inp ! i]) dc = Inr (i', rs', dc')"
        by (auto simp: Let_def)
      from "1.IH"(2)[OF _ nc refl False rec] il show ?thesis by simp
    qed
  qed
qed

lemma parse_number_loop_progress:
  "parse_number_loop inp i rs dc = Inr (i', rs', dc') \<Longrightarrow> i < length inp \<Longrightarrow> is_digit (inp ! i) \<Longrightarrow> i < i'"
  by (subst (asm) parse_number_loop.simps)
     (auto simp: Let_def raise_invalid_json_error_def is_digit_def split: if_splits dest!: parse_number_loop_bounds)

lemma parse_number_bounds:
  "parse_number inp i = Inr (v, e) \<Longrightarrow> i \<le> e \<and> e < length inp"
  by (auto simp: parse_number_def raise_invalid_json_error_def
           split: if_splits sum.splits prod.splits error.splits
           dest: parse_number_loop_bounds parse_number_loop_progress)


lemma parse_true_bounds: "parse_true inp i = Inr (v, e) \<Longrightarrow> i \<le> e \<and> e < length inp"
proof -
  assume a: "parse_true inp i = Inr (v, e)"
  then have "slice inp i (i + 4) = str_of ''true''" and e: "e = i + 3"
    by (auto simp: parse_true_def raise_invalid_json_error_def split: if_splits)
  then have "length (slice inp i (i + 4)) = 4" by (simp add: str_of_def)
  then show ?thesis using e by (simp add: slice_def)
qed

lemma parse_false_bounds: "parse_false inp i = Inr (v, e) \<Longrightarrow> i \<le> e \<and> e < length inp"
proof -
  assume a: "parse_false inp i = Inr (v, e)"
  then have s: "slice inp i (i + 5) = str_of ''true''" and i: "i < length inp" "inp ! i = 102"
    by (auto simp: parse_false_def raise_invalid_json_error_def split: if_splits)
  from i have "hd (slice inp i (i + 5)) = 102"
    by (simp add: slice_def hd_drop_conv_nth)
  with s show ?thesis by (simp add: str_of_def)
qed

lemma parse_null_bounds: "parse_null inp i = Inr (v, e) \<Longrightarrow> i \<le> e \<and> e < length inp"
proof -
  assume a: "parse_null inp i = Inr (v, e)"
  then have "slice inp i (i + 4) = str_of ''null''" and e: "e = i + 3"
    by (auto simp: parse_null_def raise_invalid_json_error_def split: if_splits)
  then have "length (slice inp i (i + 4)) = 4" by (simp add: str_of_def)
  then show ?thesis using e by (simp add: slice_def)
qed

lemma skip_next: "e < length inp \<Longrightarrow> e < skip_whitespace inp (e + 1)"
  using skip_whitespace_ge[of "e + 1" inp] by simp

lemma parse_bounds_partial:
  "parse_object_parse_object_loop_parse_array_parse_array_loop_inner_parse_json_dom
     (Inl (Inl (N, inp, i))) \<Longrightarrow>
   (\<forall>v e. parse_object N inp i = Inr (v, e) \<longrightarrow> i \<le> e \<and> e < length inp)"
  "parse_object_parse_object_loop_parse_array_parse_array_loop_inner_parse_json_dom
     (Inl (Inr (N, inp, i, ro))) \<Longrightarrow>
   (\<forall>v e. parse_object_loop N inp i ro = Inr (v, e) \<longrightarrow> i \<le> e \<and> e < length inp)"
  "parse_object_parse_object_loop_parse_array_parse_array_loop_inner_parse_json_dom
     (Inr (Inl (N, inp, i))) \<Longrightarrow>
   (\<forall>v e. parse_array N inp i = Inr (v, e) \<longrightarrow> i \<le> e \<and> e < length inp)"
  "parse_object_parse_object_loop_parse_array_parse_array_loop_inner_parse_json_dom
     (Inr (Inr (Inl (N, inp, i, ra)))) \<Longrightarrow>
   (\<forall>v e. parse_array_loop N inp i ra = Inr (v, e) \<longrightarrow> i \<le> e \<and> e < length inp)"
  "parse_object_parse_object_loop_parse_array_parse_array_loop_inner_parse_json_dom
     (Inr (Inr (Inr (N, inp, i)))) \<Longrightarrow>
   (\<forall>v e. inner_parse_json N inp i = Inr (v, e) \<longrightarrow> i \<le> e \<and> e < length inp)"
proof (induct rule: parse_object_parse_object_loop_parse_array_parse_array_loop_inner_parse_json.pinduct)
  case (1 N inp index)
  then show ?case
    by (auto simp: parse_object.psimps raise_invalid_json_error_def split: if_splits)
next
  case (2 N inp index result)
  show ?case
  proof (intro allI impI)
    fix v e
    assume r: "parse_object_loop N inp index result = Inr (v, e)"
    show "index \<le> e \<and> e < length inp"
    proof (cases "index < length inp \<and> inp ! index \<noteq> RBRACE")
      case False
      with r 2(1) show ?thesis
        by (auto simp: parse_object_loop.psimps split: if_splits)
    next
      case True
      define x where "x = skip_whitespace inp (index + 1)"
      from True r 2(1) obtain k y where ps: "parse_string N inp x = Inr (k, y)"
        by (auto simp: parse_object_loop.psimps x_def Let_def split: sum.splits)
      define xb where "xb = skip_whitespace inp (y + 1)"
      from True r 2(1) ps have xb: "xb < length inp" "inp ! xb = COLON"
        by (auto simp: parse_object_loop.psimps x_def xb_def Let_def raise_invalid_json_error_def
                 split: sum.splits if_splits)
      define xc where "xc = skip_whitespace inp (xb + 1)"
      from True r 2(1) ps xb obtain val ya where ip: "inner_parse_json N inp xc = Inr (val, ya)"
        by (auto simp: parse_object_loop.psimps x_def xb_def xc_def Let_def raise_invalid_json_error_def
                 split: sum.splits if_splits)
      define xf where "xf = skip_whitespace inp (ya + 1)"
      from True r 2(1) ps xb ip have xf: "xf < length inp"
        and rec: "parse_object_loop N inp xf (AList.update k val result) = Inr (v, e)"
        and sep: "(inp ! xf = COMMA \<and> skip_whitespace inp (xf + 1) < length inp \<and>
                   inp ! skip_whitespace inp (xf + 1) \<noteq> RBRACE) \<or>
                  (inp ! xf \<noteq> COMMA \<and> inp ! xf = RBRACE)"
        by (auto simp: parse_object_loop.psimps x_def xb_def xc_def xf_def Let_def raise_invalid_json_error_def
                 split: sum.splits if_splits)
      have b5: "xc \<le> ya \<and> ya < length inp"
        using 2(2)[OF _ _ x_def ps refl xb_def _ _ xc_def] True xb ip by auto
      have b2: "xf \<le> e \<and> e < length inp"
      proof -
        from sep show ?thesis
        proof
          assume c: "inp ! xf = COMMA \<and> skip_whitespace inp (xf + 1) < length inp \<and>
                   inp ! skip_whitespace inp (xf + 1) \<noteq> RBRACE"
          show ?thesis
            using 2(3)[OF _ _ x_def ps refl xb_def _ _ xc_def ip refl refl xf_def _ _ refl] True xb xf c rec
            by auto
        next
          assume c: "inp ! xf \<noteq> COMMA \<and> inp ! xf = RBRACE"
          show ?thesis
            using 2(4)[OF _ _ x_def ps refl xb_def _ _ xc_def ip refl refl xf_def] True xb xf c rec
            by auto
        qed
      qed
      have "index < x" using True skip_next[of index inp] by (simp add: x_def)
      moreover have "x < y" "y < length inp" using parse_string_bounds[OF ps] by auto
      moreover have "y < xb" using skip_next[of y inp] \<open>y < length inp\<close> by (simp add: xb_def)
      moreover have "xb < xc" using skip_next[of xb inp] xb by (simp add: xc_def)
      moreover have "ya < xf" using skip_next[of ya inp] b5 by (simp add: xf_def)
      ultimately show ?thesis using b5 b2 by linarith
    qed
  qed
next
  case (3 N inp index)
  then show ?case
    by (auto simp: parse_array.psimps raise_invalid_json_error_def split: if_splits)
next
  case (4 N inp index result)
  show ?case
  proof (intro allI impI)
    fix v e
    assume r: "parse_array_loop N inp index result = Inr (v, e)"
    show "index \<le> e \<and> e < length inp"
    proof (cases "index < length inp \<and> inp ! index \<noteq> RBRACKET")
      case False
      with r 4(1) show ?thesis
        by (auto simp: parse_array_loop.psimps split: if_splits)
    next
      case True
      define x where "x = skip_whitespace inp (index + 1)"
      from True r 4(1) obtain val ya where ip: "inner_parse_json N inp x = Inr (val, ya)"
        by (auto simp: parse_array_loop.psimps x_def Let_def raise_invalid_json_error_def
                 split: sum.splits if_splits)
      define xf where "xf = skip_whitespace inp (ya + 1)"
      from True r 4(1) ip have xf: "xf < length inp"
        and rec: "parse_array_loop N inp xf (result @ [val]) = Inr (v, e)"
        and sep: "(inp ! xf = COMMA \<and> skip_whitespace inp (xf + 1) < length inp \<and>
                   inp ! skip_whitespace inp (xf + 1) \<noteq> RBRACKET) \<or>
                  (inp ! xf \<noteq> COMMA \<and> inp ! xf = RBRACKET)"
        by (auto simp: parse_array_loop.psimps x_def xf_def Let_def raise_invalid_json_error_def
                 split: sum.splits if_splits)
      have b5: "x \<le> ya \<and> ya < length inp"
        using 4(2)[OF _ _ x_def] True ip by auto
      have b2: "xf \<le> e \<and> e < length inp"
      proof -
        from sep show ?thesis
        proof
          assume c: "inp ! xf = COMMA \<and> skip_whitespace inp (xf + 1) < length inp \<and>
                   inp ! skip_whitespace inp (xf + 1) \<noteq> RBRACKET"
          show ?thesis
            using 4(3)[OF _ _ x_def ip refl refl xf_def _ _ refl] True xf c rec
            by auto
        next
          assume c: "inp ! xf \<noteq> COMMA \<and> inp ! xf = RBRACKET"
          show ?thesis
            using 4(4)[OF _ _ x_def ip refl refl xf_def] True xf c rec
            by auto
        qed
      qed
      have "index < x" using True skip_next[of index inp] by (simp add: x_def)
      moreover have "ya < xf" using skip_next[of ya inp] b5 by (simp add: xf_def)
      ultimately show ?thesis using b5 b2 by linarith
    qed
  qed
next
  case (5 N inp index)
  show ?case
  proof (intro allI impI)
    fix v e
    assume r: "inner_parse_json N inp index = Inr (v, e)"
    then have il: "index < length inp" using 5(1)
      by (auto simp: inner_parse_json.psimps split: if_splits)
    consider (obj) "inp ! index = LBRACE" | (arr) "inp ! index \<noteq> LBRACE" "inp ! index = LBRACKET"
      | (other) "inp ! index \<noteq> LBRACE" "inp ! index \<noteq> LBRACKET" by blast
    then show "index \<le> e \<and> e < length inp"
    proof cases
      case obj
      then show ?thesis using 5(2)[OF _ refl] r il 5(1)
        by (auto simp: inner_parse_json.psimps Let_def)
    next
      case arr
      then show ?thesis using 5(3)[OF _ refl] r il 5(1)
        by (auto simp: inner_parse_json.psimps Let_def)
    next
      case other
      then show ?thesis using r il 5(1)
        by (auto simp: inner_parse_json.psimps Let_def split: if_splits sum.splits
                 dest: parse_string_bounds parse_true_bounds parse_false_bounds parse_null_bounds
                       parse_number_bounds)
    qed
  qed
qed

lemma term_key:
  assumes "\<not> length inp \<le> index"
    and "parse_string N inp (skip_whitespace inp (Suc index)) = Inr (k, y)"
    and "\<not> length inp \<le> skip_whitespace inp (Suc y)"
  shows "length inp - skip_whitespace inp (Suc (skip_whitespace inp (Suc y))) < length inp - index"
proof -
  have "index < skip_whitespace inp (Suc index)" using assms(1) skip_next[of index inp] by simp
  moreover have "skip_whitespace inp (Suc index) < y" "y < length inp"
    using parse_string_bounds[OF assms(2)] by auto
  moreover have "y < skip_whitespace inp (Suc y)" using skip_next[of y inp] \<open>y < length inp\<close> by simp
  moreover have "skip_whitespace inp (Suc y) < skip_whitespace inp (Suc (skip_whitespace inp (Suc y)))"
    using skip_next[of "skip_whitespace inp (Suc y)" inp] assms(3) by simp
  ultimately show ?thesis using assms(1) by linarith
qed

lemma term_value:
  assumes "\<not> length inp \<le> index"
    and "index < start"
    and "inner_parse_json N inp start = Inr (v, ya)"
    and "parse_object_parse_object_loop_parse_array_parse_array_loop_inner_parse_json_dom
          (Inr (Inr (Inr (N, inp, start))))"
  shows "length inp - skip_whitespace inp (Suc ya) < length inp - index"
proof -
  have "start \<le> ya \<and> ya < length inp" using parse_bounds_partial(5)[OF assms(4)] assms(3) by blast
  moreover then have "ya < skip_whitespace inp (Suc ya)" using skip_next[of ya inp] by simp
  ultimately show ?thesis using assms(1,2) by linarith
qed

lemma term_key_value:
  assumes "\<not> length inp \<le> index"
    and "parse_string N inp (skip_whitespace inp (Suc index)) = Inr (k, y)"
    and "\<not> length inp \<le> skip_whitespace inp (Suc y)"
    and "inner_parse_json N inp (skip_whitespace inp (Suc (skip_whitespace inp (Suc y)))) = Inr (v, ya)"
    and "parse_object_parse_object_loop_parse_array_parse_array_loop_inner_parse_json_dom
          (Inr (Inr (Inr (N, inp, skip_whitespace inp (Suc (skip_whitespace inp (Suc y)))))))"
  shows "length inp - skip_whitespace inp (Suc ya) < length inp - index"
proof -
  have "index < skip_whitespace inp (Suc (skip_whitespace inp (Suc y)))"
    using term_key[OF assms(1,2,3)] assms(1) by linarith
  from term_value[OF assms(1) this assms(4,5)] show ?thesis .
qed

lemma term_elem:
  assumes "\<not> length inp \<le> index"
    and "inner_parse_json N inp (skip_whitespace inp (Suc index)) = Inr (v, ya)"
    and "parse_object_parse_object_loop_parse_array_parse_array_loop_inner_parse_json_dom
          (Inr (Inr (Inr (N, inp, skip_whitespace inp (Suc index)))))"
  shows "length inp - skip_whitespace inp (Suc ya) < length inp - index"
proof -
  have "index < skip_whitespace inp (Suc index)" using assms(1) skip_next[of index inp] by simp
  from term_value[OF assms(1) this assms(2,3)] show ?thesis .
qed

lemma term_first:
  "\<not> length inp \<le> index \<Longrightarrow> length inp - skip_whitespace inp (Suc index) < length inp - index"
  using skip_next[of index inp] by simp

termination parse_object
  by (relation "inv_image (measure id <*lex*> measure id) 
     (\<lambda>x. case x of Inl (Inl (N, inp, i)) \<Rightarrow> (length inp - i, 1)
         | Inl (Inr (N, inp, i, r)) \<Rightarrow> (length inp - i, 0)
         | Inr (Inl (N, inp, i)) \<Rightarrow> (length inp - i, 1)
         | Inr (Inr (Inl (N, inp, i, r))) \<Rightarrow> (length inp - i, 0)
         | Inr (Inr (Inr (N, inp, i))) \<Rightarrow> (length inp - i, 2))")
     (auto intro: term_key term_key_value term_elem term_first)

declare parse_object.simps [simp del] parse_object_loop.simps [simp del]
  parse_array.simps [simp del] parse_array_loop.simps [simp del]
  inner_parse_json.simps [simp del]

text \<open>
  The entry point. The body of \<^verbatim>\<open>try\<close> is \<open>parse_json_body\<close>; \<^verbatim>\<open>except IndexError\<close>
  turns that one exception into \<^verbatim>\<open>InvalidJSONError\<close> at \<^verbatim>\<open>len(json_string)\<close> and lets
  every other one pass.
\<close>

definition parse_json_body :: "names \<Rightarrow> pystr \<Rightarrow> nat \<Rightarrow> error + json" where
  "parse_json_body N json_string start_index =
     (case inner_parse_json N json_string start_index of
        Inl e \<Rightarrow> Inl e
      | Inr (result, index) \<Rightarrow>
          let index' = skip_whitespace json_string (index + 1) in
          if index' < length json_string then raise_invalid_json_error json_string index'
          else Inr result)"

definition parse_json :: "names \<Rightarrow> pystr \<Rightarrow> error + json" where
  "parse_json N json_string =
     (let start_index = skip_whitespace json_string 0 in
      if start_index \<ge> length json_string
        then raise_invalid_json_error json_string start_index
      else let first_char = json_string ! start_index in
        if first_char \<noteq> LBRACE \<and> first_char \<noteq> LBRACKET
          then raise_invalid_json_error json_string start_index
        else case parse_json_body N json_string start_index of
            Inl IndexError \<Rightarrow> raise_invalid_json_error json_string (length json_string)
          | r \<Rightarrow> r)"


section \<open>Evaluation on concrete inputs\<close>

text \<open>
  The rules that evaluate the parsers on a literal input by rewriting. Offsets come out
  as successor terms; \<open>error_message_same_index\<close> compares a message at such an offset
  with the message at a numeral.
\<close>

lemma error_message_same_index:
  "a = b \<Longrightarrow> (error_message inp a = error_message inp b) = True"
  by simp

lemmas eval_simps =
  parse_json_def parse_json_body_def inner_parse_json.simps parse_object.simps
  parse_object_loop.simps parse_array.simps parse_array_loop.simps parse_string_def
  parse_string_scan.simps parse_number_def parse_number_loop.simps parse_true_def
  parse_false_def parse_null_def skip_whitespace_def is_space_def is_digit_def slice_def
  str_of_def Let_def raise_invalid_json_error_def int_of_digits_def py_int_def
  int_max_str_digits_def escape_step_def
  utf8_char_def is_hex_def hex_value_def hex_digit_def is_octal_def
  error_message_same_index

section \<open>The literal parsers\<close>

lemma parse_false_never_returns: "parse_false inp index \<noteq> Inr r"
proof
  assume a: "parse_false inp index = Inr r"
  then have s: "slice inp index (index + 5) = str_of ''true''"
    and i: "index < length inp" "inp ! index = 102"
    by (auto simp: parse_false_def raise_invalid_json_error_def split: if_splits)
  from i have "hd (slice inp index (index + 5)) = 102"
    by (simp add: slice_def hd_drop_conv_nth)
  with s show False by (simp add: str_of_def)
qed

text \<open>
  Claim C1. The false-literal parser, at an offset where \<^verbatim>\<open>false\<close> stands, should return
  the boolean false and the offset of the last character, and the document
  \<^verbatim>\<open>[1, 2, 3.5, "x", true, false, null]\<close> should decode to that sequence. The code compares
  the slice with \<^verbatim>\<open>"true"\<close>: on the input \<^verbatim>\<open>false\<close> at offset 0 \<open>parse_false\<close> raises
  \<^verbatim>\<open>InvalidJSONError\<close> at offset 0, and decoding the document raises it at offset 23,
  where \<^verbatim>\<open>false\<close> starts.
\<close>

theorem false_literal_rejected:
  \<open>parse_false (str_of ''false'') 0 = raise_invalid_json_error (str_of ''false'') 0 \<and>
   parse_json N (str_of ''[1, 2, 3.5, "x", true, false, null]'') =
     raise_invalid_json_error (str_of ''[1, 2, 3.5, "x", true, false, null]'') 23\<close>
  by (simp add: eval_simps)

section \<open>Empty containers\<close>

text \<open>
  Claim C2. When the next significant character after the opening brace is the closing
  one, the object loop should end and return the mapping accumulated so far, and the
  array loop likewise, so that \<^verbatim>\<open>{}\<close> and \<^verbatim>\<open>[]\<close> decode to the empty mapping and the
  empty sequence. The loops test \<^verbatim>\<open>inp[index]\<close>, which is the opening character at
  entry, and then parse a key or an element at the closing character: both documents,
  and both parsers at offset 0, raise \<^verbatim>\<open>InvalidJSONError\<close> at offset 1.
\<close>

theorem empty_containers_rejected:
  \<open>parse_json N (str_of ''{}'') = raise_invalid_json_error (str_of ''{}'') 1 \<and>
   parse_json N (str_of ''[]'') = raise_invalid_json_error (str_of ''[]'') 1 \<and>
   parse_object N (str_of ''{}'') 0 = raise_invalid_json_error (str_of ''{}'') 1 \<and>
   parse_array N (str_of ''[]'') 0 = raise_invalid_json_error (str_of ''[]'') 1\<close>
  by (simp add: eval_simps)

section \<open>Index faults at the entry point\<close>

text \<open>
  Claim C5. Every out-of-range index access during decoding is caught by the entry point
  and raised again as \<^verbatim>\<open>InvalidJSONError\<close> at the length of the input; for no input does
  decoding end in an index fault. In the model: \<open>parse_json\<close> never returns
  \<open>IndexError\<close>, and whenever the body of its \<^verbatim>\<open>try\<close> does (the root character being
  a brace or a bracket), \<open>parse_json\<close> returns the error at \<open>length inp\<close>.
\<close>

theorem index_fault_converted:
  "parse_json N inp \<noteq> Inl IndexError \<and>
   (skip_whitespace inp 0 < length inp \<and>
    (inp ! skip_whitespace inp 0 = LBRACE \<or> inp ! skip_whitespace inp 0 = LBRACKET) \<and>
    parse_json_body N inp (skip_whitespace inp 0) = Inl IndexError
    \<longrightarrow> parse_json N inp = raise_invalid_json_error inp (length inp))"
  by (auto simp: parse_json_def Let_def raise_invalid_json_error_def
           split: sum.splits error.splits)

text \<open>
  Witness for C5: the document \<^verbatim>\<open>["abc\<close> with its unterminated string. The scan of
  \<open>parse_string\<close> runs off the end, the body of \<^verbatim>\<open>try\<close> ends in \<open>IndexError\<close>, and
  decoding raises \<^verbatim>\<open>InvalidJSONError\<close> at offset 5, the length of the input.
\<close>

theorem index_fault_converted_witness:
  \<open>skip_whitespace (str_of ''["abc'') 0 < length (str_of ''["abc'') \<and>
   (str_of ''["abc'') ! skip_whitespace (str_of ''["abc'') 0 = LBRACKET \<and>
   parse_string no_names (str_of ''["abc'') 1 = Inl IndexError \<and>
   parse_json_body no_names (str_of ''["abc'') (skip_whitespace (str_of ''["abc'') 0) =
     Inl IndexError \<and>
   parse_json no_names (str_of ''["abc'') = raise_invalid_json_error (str_of ''["abc'') 5\<close>
  using index_fault_converted [of no_names \<open>str_of ''["abc''\<close>]
  by (simp add: eval_simps)

section \<open>Exceptions of the codec\<close>

text \<open>
  Claim C9. For every input the entry point should either return a value or raise
  \<^verbatim>\<open>InvalidJSONError\<close>, and no other exception. The entry point catches \<^verbatim>\<open>IndexError\<close>
  only, and \<^verbatim>\<open>parse_number\<close> catches \<^verbatim>\<open>ValueError\<close> around its own body only: on the
  document \<^verbatim>\<open>["\u12"]\<close> the codec of \<^verbatim>\<open>parse_string\<close> raises \<^verbatim>\<open>UnicodeDecodeError\<close>
  (truncated escape), which leaves \<open>parse_json\<close> as it is.
\<close>

theorem codec_error_escapes:
  \<open>parse_json N (str_of ''["'' @ [BACKSLASH] @ str_of ''u12"]'') = Inl UnicodeDecodeError\<close>
  by (simp add: eval_simps)


section \<open>The number parser\<close>

text \<open>
  The notions of the specification of the number parser. The lexeme of a number at offset
  \<open>i\<close> is the longest run of digits and dots from \<open>i\<close> on. \<open>first_dot\<close> is the offset
  of the first dot in a run, the length of the run if it has none; \<open>second_dot\<close> is the
  offset of the second dot, at least the length of the run if it has none.
  \<open>decimal_value\<close> is the integer that a digit string denotes in positional notation:
  each digit counts with the power of ten given by the number of digits after it.
\<close>

definition number_lexeme :: "pystr \<Rightarrow> nat \<Rightarrow> pystr" where
  "number_lexeme inp i = takeWhile (\<lambda>c. is_digit c \<or> c = DOT) (drop i inp)"

definition first_dot :: "pystr \<Rightarrow> nat" where
  "first_dot run = length (takeWhile (\<lambda>c. c \<noteq> DOT) run)"

definition second_dot :: "pystr \<Rightarrow> nat" where
  "second_dot run = Suc (first_dot run) + first_dot (drop (Suc (first_dot run)) run)"

fun decimal_value :: "pystr \<Rightarrow> int" where
  "decimal_value [] = 0"
| "decimal_value (c # cs) = (int c - 48) * 10 ^ length cs + decimal_value cs"

lemma digit_not_dot: "is_digit c \<Longrightarrow> c \<noteq> DOT"
  by (auto simp: is_digit_def)

lemma loop_digits:
  "list_all is_digit ds \<Longrightarrow> drop i inp = ds @ rest \<Longrightarrow>
   parse_number_loop inp i rs dc = parse_number_loop inp (i + length ds) (rs @ ds) dc"
proof (induction ds arbitrary: i rs)
  case Nil
  then show ?case by simp
next
  case (Cons d ds)
  from Cons.prems(2) have il: "i < length inp"
    by (metis drop_all leI list.simps(3) append_Cons)
  from Cons.prems(2) il have d: "inp ! i = d"
    by (metis append_Cons nth_via_drop)
  from Cons.prems(2) have dr: "drop (Suc i) inp = ds @ rest"
    by (metis append_Cons drop_Suc list.sel(3) tl_drop)
  from Cons.prems(1) have dd: "is_digit d" "list_all is_digit ds" by simp_all
  have "parse_number_loop inp i rs dc = parse_number_loop inp (Suc i) (rs @ [d]) dc"
    using il d dd(1) digit_not_dot[OF dd(1)]
    by (subst parse_number_loop.simps) (simp add: Let_def)
  also have "\<dots> = parse_number_loop inp (Suc i + length ds) ((rs @ [d]) @ ds) dc"
    by (rule Cons.IH[OF dd(2) dr])
  finally show ?case by simp
qed

lemma loop_stop:
  "i < length inp \<Longrightarrow> \<not> is_digit (inp ! i) \<Longrightarrow> inp ! i \<noteq> DOT \<Longrightarrow>
   parse_number_loop inp i rs dc = Inr (i, rs, dc)"
  by (subst parse_number_loop.simps) simp

lemma loop_end:
  "length inp \<le> i \<Longrightarrow> parse_number_loop inp i rs dc = Inl IndexError"
  by (subst parse_number_loop.simps) simp

lemma loop_second_dot:
  "i < length inp \<Longrightarrow> inp ! i = DOT \<Longrightarrow> 0 < dc \<Longrightarrow>
   parse_number_loop inp i rs dc = raise_invalid_json_error inp i"
  by (subst parse_number_loop.simps) (simp add: Let_def)

lemma loop_dot_no_digit:
  "i < length inp \<Longrightarrow> inp ! i = DOT \<Longrightarrow> Suc i < length inp \<Longrightarrow> \<not> is_digit (inp ! Suc i) \<Longrightarrow>
   parse_number_loop inp i rs dc = raise_invalid_json_error inp i"
  by (subst parse_number_loop.simps) (simp add: Let_def)

lemma loop_dot_end:
  "i < length inp \<Longrightarrow> inp ! i = DOT \<Longrightarrow> length inp \<le> Suc i \<Longrightarrow>
   parse_number_loop inp i rs 0 = Inl IndexError"
  by (subst parse_number_loop.simps) (simp add: Let_def)

lemma loop_first_dot:
  "i < length inp \<Longrightarrow> inp ! i = DOT \<Longrightarrow> Suc i < length inp \<Longrightarrow> is_digit (inp ! Suc i) \<Longrightarrow>
   parse_number_loop inp i rs 0 = parse_number_loop inp (Suc i) (rs @ [DOT]) (Suc 0)"
  by (subst parse_number_loop.simps) (simp add: Let_def)


lemma drop_eq_ConsD:
  "drop i inp = x # xs \<Longrightarrow> i < length inp \<and> inp ! i = x \<and> drop (Suc i) inp = xs"
proof -
  assume a: "drop i inp = x # xs"
  then have il: "i < length inp" by (metis drop_all leI list.simps(3))
  moreover from a il have "inp ! i = x" by (metis nth_via_drop)
  moreover from a have "drop (Suc i) inp = xs" by (metis drop_Suc list.sel(3) tl_drop)
  ultimately show ?thesis by simp
qed

lemma drop_eq_appendD: "drop i inp = xs @ ys \<Longrightarrow> drop (i + length xs) inp = ys"
proof -
  assume a: "drop i inp = xs @ ys"
  have "drop (i + length xs) inp = drop (length xs) (drop i inp)" by (simp add: add.commute)
  with a show ?thesis by simp
qed

lemma number_start:
  assumes "ds \<noteq> []" "list_all is_digit ds" "drop i inp = ds @ rest"
  shows "parse_number inp i =
     (case parse_number_loop inp (i + length ds) ds 0 of
        Inl e \<Rightarrow> Inl e
      | Inr (index', result_string, dot_count) \<Rightarrow>
          if dot_count > 0 then Inr (JFloat result_string, index' - 1)
          else (case py_int result_string of
                  Inl ValueError \<Rightarrow> raise_invalid_json_error inp index'
                | Inl e \<Rightarrow> Inl e
                | Inr n \<Rightarrow> Inr (JInt n, index' - 1)))"
proof -
  from assms(1) obtain d ds' where ds: "ds = d # ds'" by (cases ds) auto
  with assms(3) have "drop i inp = d # (ds' @ rest)" by simp
  from drop_eq_ConsD[OF this] have il: "i < length inp" and d: "inp ! i = d" by auto
  from assms(2) ds have "is_digit d" by simp
  with il d show ?thesis
    by (simp add: parse_number_def loop_digits[OF assms(2,3), of "[]" 0])
qed

lemma number_int:
  assumes "ds \<noteq> []" "list_all is_digit ds" "drop i inp = ds @ c # rest"
    and "\<not> is_digit c" "c \<noteq> DOT"
  shows "parse_number inp i =
     (if length ds \<le> int_max_str_digits
        then Inr (JInt (int_of_digits ds), i + length ds - 1)
      else raise_invalid_json_error inp (i + length ds))"
proof -
  from drop_eq_ConsD[OF drop_eq_appendD[OF assms(3)]]
  have "i + length ds < length inp" "inp ! (i + length ds) = c" by auto
  then show ?thesis
    using assms(1,2,4,5) by (simp add: number_start[OF assms(1,2,3)] loop_stop py_int_def)
qed

lemma number_runs_off:
  assumes "ds \<noteq> []" "list_all is_digit ds" "drop i inp = ds"
  shows "parse_number inp i = Inl IndexError"
proof -
  from assms(3) have d: "drop i inp = ds @ []" by simp
  from assms(3) have "length inp - i = length ds" by (metis length_drop)
  then have "length inp \<le> i + length ds" by simp
  then show ?thesis by (simp add: number_start[OF assms(1,2) d] loop_end)
qed

lemma number_bad_dot:
  assumes "ds \<noteq> []" "list_all is_digit ds" "drop i inp = ds @ DOT # c # rest"
    and "\<not> is_digit c"
  shows "parse_number inp i = raise_invalid_json_error inp (i + length ds)"
proof -
  from drop_eq_ConsD[OF drop_eq_appendD[OF assms(3)]]
  have a: "i + length ds < length inp" "inp ! (i + length ds) = DOT"
    and b: "drop (Suc (i + length ds)) inp = c # rest" by auto
  from drop_eq_ConsD[OF b]
  have c: "Suc (i + length ds) < length inp" "inp ! Suc (i + length ds) = c" by auto
  show ?thesis
    using a c assms(4)
    by (simp add: number_start[OF assms(1,2,3)] loop_dot_no_digit raise_invalid_json_error_def)
qed

lemma number_after_dot:
  assumes "ds1 \<noteq> []" "list_all is_digit ds1" "ds2 \<noteq> []" "list_all is_digit ds2"
    and "drop i inp = ds1 @ DOT # ds2 @ rest"
  shows "parse_number inp i =
     (case parse_number_loop inp (i + length ds1 + 1 + length ds2) (ds1 @ DOT # ds2) (Suc 0) of
        Inl e \<Rightarrow> Inl e
      | Inr (index', result_string, dot_count) \<Rightarrow>
          if dot_count > 0 then Inr (JFloat result_string, index' - 1)
          else (case py_int result_string of
                  Inl ValueError \<Rightarrow> raise_invalid_json_error inp index'
                | Inl e \<Rightarrow> Inl e
                | Inr n \<Rightarrow> Inr (JInt n, index' - 1)))"
proof -
  from drop_eq_ConsD[OF drop_eq_appendD[OF assms(5)]]
  have a: "i + length ds1 < length inp" "inp ! (i + length ds1) = DOT"
    and b: "drop (Suc (i + length ds1)) inp = ds2 @ rest" by auto
  from assms(3) obtain d ds' where ds: "ds2 = d # ds'" by (cases ds2) auto
  with b have "drop (Suc (i + length ds1)) inp = d # (ds' @ rest)" by simp
  from drop_eq_ConsD[OF this]
  have c: "Suc (i + length ds1) < length inp" "inp ! Suc (i + length ds1) = d" by auto
  from assms(4) ds have "is_digit d" by simp
  with a c have "parse_number_loop inp (i + length ds1) ds1 0 =
      parse_number_loop inp (Suc (i + length ds1)) (ds1 @ [DOT]) (Suc 0)"
    by (simp add: loop_first_dot)
  also have "\<dots> = parse_number_loop inp (Suc (i + length ds1) + length ds2) ((ds1 @ [DOT]) @ ds2) (Suc 0)"
    by (rule loop_digits[OF assms(4) b])
  finally show ?thesis
    by (simp add: number_start[OF assms(1,2,5)])
qed

lemma number_float:
  assumes "ds1 \<noteq> []" "list_all is_digit ds1" "ds2 \<noteq> []" "list_all is_digit ds2"
    and "drop i inp = ds1 @ DOT # ds2 @ c # rest" "\<not> is_digit c" "c \<noteq> DOT"
  shows "parse_number inp i = Inr (JFloat (ds1 @ DOT # ds2), i + length ds1 + length ds2)"
proof -
  have "drop i inp = (ds1 @ DOT # ds2) @ c # rest" using assms(5) by simp
  from drop_eq_ConsD[OF drop_eq_appendD[OF this]]
  have "i + length ds1 + 1 + length ds2 < length inp" "inp ! (i + length ds1 + 1 + length ds2) = c"
    by (auto simp: add.assoc)
  then show ?thesis
    using assms(6,7) by (simp add: number_after_dot[OF assms(1-5)] loop_stop)
qed

lemma number_second_dot:
  assumes "ds1 \<noteq> []" "list_all is_digit ds1" "ds2 \<noteq> []" "list_all is_digit ds2"
    and "drop i inp = ds1 @ DOT # ds2 @ DOT # rest"
  shows "parse_number inp i = raise_invalid_json_error inp (i + length ds1 + 1 + length ds2)"
proof -
  have "drop i inp = (ds1 @ DOT # ds2) @ DOT # rest" using assms(5) by simp
  from drop_eq_ConsD[OF drop_eq_appendD[OF this]]
  have "i + length ds1 + 1 + length ds2 < length inp" "inp ! (i + length ds1 + 1 + length ds2) = DOT"
    by (auto simp: add.assoc)
  then show ?thesis
    by (simp add: number_after_dot[OF assms(1-5)] loop_second_dot raise_invalid_json_error_def)
qed

lemma number_float_end:
  assumes "ds1 \<noteq> []" "list_all is_digit ds1" "ds2 \<noteq> []" "list_all is_digit ds2"
    and "drop i inp = ds1 @ DOT # ds2"
  shows "parse_number inp i = Inl IndexError"
proof -
  have d: "drop i inp = ds1 @ DOT # ds2 @ []" using assms(5) by simp
  from assms(5) have "length inp - i = length (ds1 @ DOT # ds2)" by (metis length_drop)
  then have "length inp \<le> i + length ds1 + 1 + length ds2" by simp
  then show ?thesis by (simp add: number_after_dot[OF assms(1-4) d] loop_end)
qed

lemma number_dot_end:
  assumes "ds \<noteq> []" "list_all is_digit ds" "drop i inp = ds @ [DOT]"
  shows "parse_number inp i = Inl IndexError"
proof -
  from drop_eq_ConsD[OF drop_eq_appendD[OF assms(3)]]
  have a: "i + length ds < length inp" "inp ! (i + length ds) = DOT"
    and b: "drop (Suc (i + length ds)) inp = []" by auto
  from b have "length inp \<le> Suc (i + length ds)" by simp
  with a show ?thesis
    by (simp add: number_start[OF assms(1,2,3)] loop_dot_end)
qed

lemma int_of_digits_decimal: "int_of_digits ds = decimal_value ds"
proof -
  have "foldl (\<lambda>a c. 10 * a + (int c - 48)) a ds = a * 10 ^ length ds + decimal_value ds" for a
    by (induction ds arbitrary: a) (simp_all add: algebra_simps)
  from this[of 0] show ?thesis by (simp add: int_of_digits_def)
qed

lemma decimal_value_append:
  "decimal_value (a @ b) = decimal_value a * 10 ^ length b + decimal_value b"
  by (induction a) (simp_all add: algebra_simps power_add)


lemma digits_no_dot: "list_all is_digit ds \<Longrightarrow> DOT \<notin> set ds"
  by (auto simp: list_all_iff dest: digit_not_dot)

lemma first_dot_digits: "list_all is_digit ds \<Longrightarrow> first_dot (ds @ r) = length ds + first_dot r"
  by (induction ds) (auto simp: first_dot_def dest: digit_not_dot)

lemma first_dot_Nil: "first_dot [] = 0"
  by (simp add: first_dot_def)

lemma first_dot_DOT: "first_dot (DOT # r) = 0"
  by (simp add: first_dot_def)

lemma second_dot_shape:
  "list_all is_digit ds \<Longrightarrow> second_dot (ds @ DOT # r) = Suc (length ds) + first_dot r"
  by (simp add: second_dot_def first_dot_digits first_dot_DOT)

lemma digit_after_dot:
  "ds2 \<noteq> [] \<Longrightarrow> list_all is_digit ds2 \<Longrightarrow> is_digit ((ds1 @ DOT # ds2 @ r) ! Suc (length ds1))"
  by (cases ds2) (simp_all add: nth_append)


lemma lexeme_shape:
  assumes el: "\<forall>c \<in> set run. is_digit c \<or> c = DOT" and ne: "run \<noteq> []" and hd: "is_digit (hd run)"
  obtains (int) "list_all is_digit run"
  | (float) ds1 ds2 where "run = ds1 @ DOT # ds2" "ds1 \<noteq> []" "list_all is_digit ds1"
      "ds2 \<noteq> []" "list_all is_digit ds2"
  | (dot_end) ds1 where "run = ds1 @ [DOT]" "ds1 \<noteq> []" "list_all is_digit ds1"
  | (dot_dot) ds1 r where "run = ds1 @ DOT # DOT # r" "ds1 \<noteq> []" "list_all is_digit ds1"
  | (second) ds1 ds2 r where "run = ds1 @ DOT # ds2 @ DOT # r" "ds1 \<noteq> []"
      "list_all is_digit ds1" "ds2 \<noteq> []" "list_all is_digit ds2"
proof -
  define ds1 where "ds1 = takeWhile is_digit run"
  define r1 where "r1 = dropWhile is_digit run"
  have run: "run = ds1 @ r1" by (simp add: ds1_def r1_def)
  have d1: "list_all is_digit ds1"
    by (simp add: ds1_def list_all_iff) (metis set_takeWhileD)
  have n1: "ds1 \<noteq> []" using ne hd by (cases run) (auto simp: ds1_def)
  show thesis
  proof (cases r1)
    case Nil
    with run d1 int show ?thesis by simp
  next
    case (Cons x r2)
    then have "\<not> is_digit x" by (metis hd_dropWhile list.sel(1) list.simps(3) r1_def)
    moreover have "x \<in> set run" using Cons run by simp
    ultimately have x: "x = DOT" using el by blast
    define ds2 where "ds2 = takeWhile is_digit r2"
    define r3 where "r3 = dropWhile is_digit r2"
    have r2: "r2 = ds2 @ r3" by (simp add: ds2_def r3_def)
    have d2: "list_all is_digit ds2"
      by (simp add: ds2_def list_all_iff) (metis set_takeWhileD)
    show ?thesis
    proof (cases r3)
      case Nil
      show ?thesis
      proof (cases "ds2 = []")
        case True
        with Nil r2 run Cons x have "run = ds1 @ [DOT]" by simp
        with n1 d1 dot_end show ?thesis by blast
      next
        case False
        from Nil r2 run Cons x have "run = ds1 @ DOT # ds2" by simp
        with n1 d1 False d2 float show ?thesis by blast
      qed
    next
      case c3: (Cons y r4)
      then have "\<not> is_digit y" by (metis hd_dropWhile list.sel(1) list.simps(3) r3_def)
      moreover have "y \<in> set run" using c3 r2 Cons run by simp
      ultimately have y: "y = DOT" using el by blast
      show ?thesis
      proof (cases "ds2 = []")
        case True
        with c3 y r2 run Cons x have "run = ds1 @ DOT # DOT # r4" by simp
        with n1 d1 dot_dot show ?thesis by blast
      next
        case False
        from c3 y r2 run Cons x have "run = ds1 @ DOT # ds2 @ DOT # r4" by simp
        with n1 d1 False d2 second show ?thesis by blast
      qed
    qed
  qed
qed

lemma lexeme_split:
  assumes "i + length (number_lexeme inp i) < length inp"
  obtains c rest where "drop i inp = number_lexeme inp i @ c # rest" "\<not> is_digit c" "c \<noteq> DOT"
proof -
  define P where "P = (\<lambda>c. is_digit c \<or> c = DOT)"
  define rest where "rest = dropWhile P (drop i inp)"
  have sp: "drop i inp = number_lexeme inp i @ rest"
    by (simp add: number_lexeme_def rest_def P_def)
  then have "length (drop i inp) = length (number_lexeme inp i) + length rest"
    by (metis length_append)
  with assms have "rest \<noteq> []" by auto
  then obtain c r where cr: "rest = c # r" by (cases rest) auto
  then have "\<not> P c" by (metis hd_dropWhile list.sel(1) list.simps(3) rest_def)
  with sp cr that show thesis by (auto simp: P_def)
qed

lemma lexeme_elements: "\<forall>c \<in> set (number_lexeme inp i). is_digit c \<or> c = DOT"
  by (auto simp: number_lexeme_def dest: set_takeWhileD)

lemma lexeme_head:
  "i < length inp \<Longrightarrow> is_digit (inp ! i) \<Longrightarrow>
   number_lexeme inp i \<noteq> [] \<and> hd (number_lexeme inp i) = inp ! i"
  by (simp add: number_lexeme_def Cons_nth_drop_Suc[symmetric])

lemma lexeme_rest:
  obtains rest where "drop i inp = number_lexeme inp i @ rest"
    "rest = [] \<or> (\<exists>c r. rest = c # r \<and> \<not> is_digit c \<and> c \<noteq> DOT)"
proof -
  define P where "P = (\<lambda>c. is_digit c \<or> c = DOT)"
  define rest where "rest = dropWhile P (drop i inp)"
  have sp: "drop i inp = number_lexeme inp i @ rest"
    by (simp add: number_lexeme_def rest_def P_def)
  have "rest = [] \<or> (\<exists>c r. rest = c # r \<and> \<not> is_digit c \<and> c \<noteq> DOT)"
  proof (cases rest)
    case Nil
    then show ?thesis by simp
  next
    case (Cons c r)
    then have "\<not> P c" by (metis hd_dropWhile list.sel(1) list.simps(3) rest_def)
    with Cons show ?thesis by (simp add: P_def)
  qed
  with sp that show thesis by blast
qed

text \<open>
  Claim C6, as amended. Let \<open>run\<close> be the longest run of digits and dots at \<open>i\<close>, \<open>e\<close> the
  offset right after it, \<open>d1\<close> and \<open>d2\<close> the offsets of its first and second dot.
  \<^item> At an offset past the end \<open>parse_number\<close> ends in \<open>IndexError\<close>; at a character that
    is not a digit it raises \<^verbatim>\<open>InvalidJSONError\<close> at that offset.
  \<^item> At a digit, with no dot in the run and a character after the run: the integer
    \<open>decimal_value run\<close> and the offset \<open>e - 1\<close> of the last digit if the run has at most
    \<open>int_max_str_digits\<close> digits, \<^verbatim>\<open>InvalidJSONError\<close> at \<open>e\<close> if it has more.
  \<^item> If the first dot has no digit right after it: \<^verbatim>\<open>InvalidJSONError\<close> at that dot, or
    \<open>IndexError\<close> when the dot is the last character of the input.
  \<^item> If the first dot has a digit right after it and there is a second dot:
    \<^verbatim>\<open>InvalidJSONError\<close> at the second dot.
  \<^item> If the only dot has a digit right after it and a character follows the run: the
    float of the lexeme and the offset \<open>e - 1\<close> of the last digit.
  \<^item> If the run, with no dot or with one dot and a digit right after it, reaches the end of
    the input: \<open>IndexError\<close>.
\<close>

theorem number_parser_contract:
  "(length inp \<le> i \<longrightarrow> parse_number inp i = Inl IndexError) \<and>
   (i < length inp \<and> \<not> is_digit (inp ! i) \<longrightarrow>
      parse_number inp i = raise_invalid_json_error inp i) \<and>
   (i < length inp \<and> is_digit (inp ! i) \<longrightarrow>
      (let run = number_lexeme inp i; e = i + length run;
           d1 = first_dot run; d2 = second_dot run
       in
         (DOT \<notin> set run \<and> e < length inp \<and> length run \<le> int_max_str_digits \<longrightarrow>
            parse_number inp i = Inr (JInt (decimal_value run), e - 1)) \<and>
         (DOT \<notin> set run \<and> e < length inp \<and> int_max_str_digits < length run \<longrightarrow>
            parse_number inp i = raise_invalid_json_error inp e) \<and>
         (DOT \<notin> set run \<and> e = length inp \<longrightarrow>
            parse_number inp i = Inl IndexError) \<and>
         (DOT \<in> set run \<and> \<not> (Suc d1 < length run \<and> is_digit (run ! Suc d1)) \<and>
          Suc (i + d1) < length inp \<longrightarrow>
            parse_number inp i = raise_invalid_json_error inp (i + d1)) \<and>
         (DOT \<in> set run \<and> \<not> (Suc d1 < length run \<and> is_digit (run ! Suc d1)) \<and>
          Suc (i + d1) = length inp \<longrightarrow>
            parse_number inp i = Inl IndexError) \<and>
         (DOT \<in> set run \<and> Suc d1 < length run \<and> is_digit (run ! Suc d1) \<and>
          d2 < length run \<longrightarrow>
            parse_number inp i = raise_invalid_json_error inp (i + d2)) \<and>
         (DOT \<in> set run \<and> Suc d1 < length run \<and> is_digit (run ! Suc d1) \<and>
          length run \<le> d2 \<and> e < length inp \<longrightarrow>
            parse_number inp i = Inr (JFloat run, e - 1)) \<and>
         (DOT \<in> set run \<and> Suc d1 < length run \<and> is_digit (run ! Suc d1) \<and>
          length run \<le> d2 \<and> e = length inp \<longrightarrow>
            parse_number inp i = Inl IndexError)))"
  (is "?A \<and> ?B \<and> (?C \<longrightarrow> ?D)")
proof -
  have a: ?A by (simp add: parse_number_def)
  have b: ?B by (simp add: parse_number_def)
  have d: ?D if c: ?C
  proof -
    from c have il: "i < length inp" and dg: "is_digit (inp ! i)" by simp_all
    define run where "run = number_lexeme inp i"
    from lexeme_rest[of i inp] obtain rest where
      sp: "drop i inp = run @ rest" and
      stop: "rest = [] \<or> (\<exists>c r. rest = c # r \<and> \<not> is_digit c \<and> c \<noteq> DOT)"
      unfolding run_def by blast
    have "length (drop i inp) = length run + length rest" using sp by (metis length_append)
    with il have len: "length inp = i + length run + length rest" by simp
    from lexeme_head[OF il dg] have ne: "run \<noteq> []" and hd: "is_digit (hd run)"
      using dg by (simp_all add: run_def)
    have el: "\<forall>c \<in> set run. is_digit c \<or> c = DOT"
      unfolding run_def by (rule lexeme_elements)
    have g: ?D if pn: "parse_number inp i = r"
      and sel: "r =
        (if DOT \<notin> set run then
           (if rest = [] then Inl IndexError
            else if length run \<le> int_max_str_digits
              then Inr (JInt (decimal_value run), i + length run - 1)
            else raise_invalid_json_error inp (i + length run))
         else if \<not> (Suc (first_dot run) < length run \<and> is_digit (run ! Suc (first_dot run)))
           then (if Suc (i + first_dot run) < length inp
                   then raise_invalid_json_error inp (i + first_dot run)
                 else Inl IndexError)
         else if second_dot run < length run
           then raise_invalid_json_error inp (i + second_dot run)
         else if rest = [] then Inl IndexError
         else Inr (JFloat run, i + length run - 1))"
      and fd: "first_dot run \<le> length run" 
      and fl: "Suc (i + first_dot run) \<le> length inp \<or> DOT \<notin> set run" for r
      unfolding Let_def run_def[symmetric] pn sel using len fd fl
      by (cases "rest = []") (auto simp: raise_invalid_json_error_def)
    show ?thesis
    proof (rule lexeme_shape[OF el ne hd])
      assume dig: "list_all is_digit run"
      have nd: "DOT \<notin> set run" by (rule digits_no_dot[OF dig])
      have fd: "first_dot run = length run"
        using first_dot_digits[OF dig, of "[]"] by (simp add: first_dot_Nil)
      show ?thesis
      proof (cases "rest = []")
        case True
        with sp have "drop i inp = run" by simp
        from number_runs_off[OF ne dig this] show ?thesis
          by (rule g) (simp_all add: nd True fd)
      next
        case False
        with stop obtain c r where r: "rest = c # r" "\<not> is_digit c" "c \<noteq> DOT" by blast
        with sp have "drop i inp = run @ c # r" by simp
        from number_int[OF ne dig this r(2,3)] show ?thesis
          by (rule g) (simp_all add: nd False fd int_of_digits_decimal)
      qed
    next
      fix ds1 ds2
      assume r: "run = ds1 @ DOT # ds2" and n1: "ds1 \<noteq> []" and d1: "list_all is_digit ds1"
        and n2: "ds2 \<noteq> []" and d2: "list_all is_digit ds2"
      have mem: "DOT \<in> set run" by (simp add: r)
      have fd: "first_dot run = length ds1"
        using first_dot_digits[OF d1, of "DOT # ds2"] by (simp add: r first_dot_DOT)
      have sd: "second_dot run = length run"
        using second_dot_shape[OF d1, of ds2] first_dot_digits[OF d2, of "[]"]
        by (simp add: r first_dot_Nil)
      have da: "is_digit (run ! Suc (length ds1))"
        using digit_after_dot[OF n2 d2, of ds1 "[]"] by (simp add: r)
      have lr: "length run = length ds1 + 1 + length ds2" by (simp add: r)
      have l2: "0 < length ds2" using n2 by simp
      show ?thesis
      proof (cases "rest = []")
        case True
        with sp r have "drop i inp = ds1 @ DOT # ds2" by simp
        from number_float_end[OF n1 d1 n2 d2 this] show ?thesis
          using len n2 by (intro g) (simp_all add: mem True fd sd da lr)
      next
        case False
        with stop obtain c q where q: "rest = c # q" "\<not> is_digit c" "c \<noteq> DOT" by blast
        with sp r have "drop i inp = ds1 @ DOT # ds2 @ c # q" by simp
        from number_float[OF n1 d1 n2 d2 this q(2,3)]
        have "parse_number inp i = Inr (JFloat run, i + length run - 1)" by (simp add: r)
        then show ?thesis
          using len n2 by (intro g) (simp_all add: mem False fd sd da lr)
      qed
    next
      fix ds1
      assume r: "run = ds1 @ [DOT]" and n1: "ds1 \<noteq> []" and d1: "list_all is_digit ds1"
      have mem: "DOT \<in> set run" by (simp add: r)
      have fd: "first_dot run = length ds1"
        using first_dot_digits[OF d1, of "[DOT]"] by (simp add: r first_dot_DOT)
      have lr: "length run = Suc (length ds1)" by (simp add: r)
      show ?thesis
      proof (cases "rest = []")
        case True
        with sp r have "drop i inp = ds1 @ [DOT]" by simp
        from number_dot_end[OF n1 d1 this] show ?thesis
          using len by (intro g) (simp_all add: mem True fd lr)
      next
        case False
        with stop obtain c q where q: "rest = c # q" "\<not> is_digit c" "c \<noteq> DOT" by blast
        with sp r have "drop i inp = ds1 @ DOT # c # q" by simp
        from number_bad_dot[OF n1 d1 this q(2)] show ?thesis
          using len by (intro g) (simp_all add: mem q(1) fd lr)
      qed
    next
      fix ds1 q
      assume r: "run = ds1 @ DOT # DOT # q" and n1: "ds1 \<noteq> []" and d1: "list_all is_digit ds1"
      have mem: "DOT \<in> set run" by (simp add: r)
      have fd: "first_dot run = length ds1"
        using first_dot_digits[OF d1, of "DOT # DOT # q"] by (simp add: r first_dot_DOT)
      have lr: "length run = Suc (Suc (length ds1 + length q))" by (simp add: r)
      have nda: "\<not> is_digit (run ! Suc (length ds1))"
        by (simp add: r nth_append is_digit_def)
      from sp r have "drop i inp = ds1 @ DOT # DOT # (q @ rest)" by simp
      from number_bad_dot[OF n1 d1 this] have "parse_number inp i =
          raise_invalid_json_error inp (i + length ds1)"
        by (simp add: is_digit_def)
      then show ?thesis
        using len by (intro g) (simp_all add: mem fd lr nda)
    next
      fix ds1 ds2 q
      assume r: "run = ds1 @ DOT # ds2 @ DOT # q" and n1: "ds1 \<noteq> []"
        and d1: "list_all is_digit ds1" and n2: "ds2 \<noteq> []" and d2: "list_all is_digit ds2"
      have mem: "DOT \<in> set run" by (simp add: r)
      have fd: "first_dot run = length ds1"
        using first_dot_digits[OF d1, of "DOT # ds2 @ DOT # q"] by (simp add: r first_dot_DOT)
      have sd: "second_dot run = Suc (length ds1) + length ds2"
        using second_dot_shape[OF d1, of "ds2 @ DOT # q"] first_dot_digits[OF d2, of "DOT # q"]
        by (simp add: r first_dot_DOT)
      have da: "is_digit (run ! Suc (length ds1))"
        using digit_after_dot[OF n2 d2, of ds1 "DOT # q"] by (simp add: r)
      have lr: "length run = length ds1 + 1 + length ds2 + 1 + length q" by (simp add: r)
      have l2: "0 < length ds2" using n2 by simp
      from sp r have "drop i inp = ds1 @ DOT # ds2 @ DOT # (q @ rest)" by simp
      from number_second_dot[OF n1 d1 n2 d2 this] show ?thesis
        using len n2 by (intro g) (simp_all add: mem fd sd da lr add.assoc)
    qed
  qed
  from a b d show ?thesis by blast
qed

text \<open>
  Witness for C6, one input for each case of the contract at a digit: \<^verbatim>\<open>42]\<close> (integer),
  \<^verbatim>\<open>12.50]\<close> (float), \<^verbatim>\<open>1.2.3]\<close> (second dot, at offset 3), \<^verbatim>\<open>1..\<close> and \<^verbatim>\<open>1.x\<close> (first dot
  without a digit after it, at offset 1), \<^verbatim>\<open>1.\<close> (the dot ends the input) and \<^verbatim>\<open>1.5\<close>
  (the run ends the input).
\<close>

lemmas number_eval =
  number_lexeme_def first_dot_def second_dot_def str_of_def is_digit_def
  int_max_str_digits_def Let_def

theorem number_parser_contract_witness:
  \<open>parse_number (str_of ''42]'') 0 = Inr (JInt 42, 1) \<and>
   parse_number (str_of ''12.50]'') 0 = Inr (JFloat (str_of ''12.50''), 4) \<and>
   parse_number (str_of ''1.2.3]'') 0 = raise_invalid_json_error (str_of ''1.2.3]'') 3 \<and>
   parse_number (str_of ''1..'') 0 = raise_invalid_json_error (str_of ''1..'') 1 \<and>
   parse_number (str_of ''1.x'') 0 = raise_invalid_json_error (str_of ''1.x'') 1 \<and>
   parse_number (str_of ''1.'') 0 = Inl IndexError \<and>
   parse_number (str_of ''1.5'') 0 = Inl IndexError\<close>
  using number_parser_contract [of \<open>str_of ''42]''\<close> 0]
    number_parser_contract [of \<open>str_of ''12.50]''\<close> 0]
    number_parser_contract [of \<open>str_of ''1.2.3]''\<close> 0]
    number_parser_contract [of \<open>str_of ''1..''\<close> 0]
    number_parser_contract [of \<open>str_of ''1.x''\<close> 0]
    number_parser_contract [of \<open>str_of ''1.''\<close> 0]
    number_parser_contract [of \<open>str_of ''1.5''\<close> 0]
  by (simp add: number_eval raise_invalid_json_error_def error_message_same_index)

text \<open>
  Counterexample to C6 as stated: on the input \<^verbatim>\<open>7\<close> at offset 0 the offset points at a
  digit and the run \<^verbatim>\<open>7\<close> has no dot, yet the loop reads \<^verbatim>\<open>inp[1]\<close> past the end and
  \<open>parse_number\<close> ends in \<open>IndexError\<close> instead of returning the integer.
\<close>

theorem number_at_end_of_input:
  \<open>is_digit (str_of ''7'' ! 0) \<and> number_lexeme (str_of ''7'') 0 = str_of ''7'' \<and>
   parse_number (str_of ''7'') 0 = Inl IndexError\<close>
  by (simp add: eval_simps number_lexeme_def)


section \<open>Leading zeros\<close>



lemma skip_whitespace_space:
  "i < length inp \<Longrightarrow> is_space (inp ! i) \<Longrightarrow> skip_whitespace inp i = skip_whitespace inp (Suc i)"
  by (auto simp: skip_whitespace_def Let_def min_def Cons_nth_drop_Suc[symmetric] not_less
           dest: le_antisym)









section \<open>Totality of the structural parsers\<close>

text \<open>
  With termination proved the parsers are defined on every argument, so the bounds on the
  end offset hold without the domain condition.
\<close>


lemma all_dom:
  "parse_object_parse_object_loop_parse_array_parse_array_loop_inner_parse_json_dom (Inl (Inl (N, inp, i)))"
  "parse_object_parse_object_loop_parse_array_parse_array_loop_inner_parse_json_dom (Inl (Inr (N, inp, i, ro)))"
  "parse_object_parse_object_loop_parse_array_parse_array_loop_inner_parse_json_dom (Inr (Inl (N, inp, i)))"
  "parse_object_parse_object_loop_parse_array_parse_array_loop_inner_parse_json_dom (Inr (Inr (Inl (N, inp, i, ra))))"
  "parse_object_parse_object_loop_parse_array_parse_array_loop_inner_parse_json_dom (Inr (Inr (Inr (N, inp, i))))"
proof (induct N inp i and N inp i ro and N inp i and N inp i ra and N inp i
    rule: parse_object_parse_object_loop_parse_array_parse_array_loop_inner_parse_json.induct)
  case (1 N inp index)
  show ?case
    by (rule parse_object_parse_object_loop_parse_array_parse_array_loop_inner_parse_json.domintros)
       (rule 1, simp_all)
next
  case (2 N inp index result)
  show ?case
  proof (rule parse_object_parse_object_loop_parse_array_parse_array_loop_inner_parse_json.domintros)
    fix a b
    assume "\<not> length inp \<le> index" "inp ! index \<noteq> RBRACE"
      "parse_string N inp (skip_whitespace inp (Suc index)) = Inr (a, b)"
      "\<not> length inp \<le> skip_whitespace inp (Suc b)"
      "inp ! skip_whitespace inp (Suc b) = COLON"
    then show "parse_object_parse_object_loop_parse_array_parse_array_loop_inner_parse_json_dom
       (Inr (Inr (Inr (N, inp, skip_whitespace inp (Suc (skip_whitespace inp (Suc b)))))))"
      using 2(1)[of "skip_whitespace inp (index + 1)" "(a, b)" a b "skip_whitespace inp (b + 1)"
          "skip_whitespace inp (skip_whitespace inp (b + 1) + 1)"]
      by simp
  next
    fix a b aa ba
    assume "\<not> length inp \<le> index" "inp ! index \<noteq> RBRACE"
      "parse_string N inp (skip_whitespace inp (Suc index)) = Inr (a, b)"
      "\<not> length inp \<le> skip_whitespace inp (Suc b)"
      "inp ! skip_whitespace inp (Suc b) = COLON"
      "inner_parse_json N inp (skip_whitespace inp (Suc (skip_whitespace inp (Suc b)))) = Inr (aa, ba)"
      "\<not> length inp \<le> skip_whitespace inp (Suc ba)"
      "inp ! skip_whitespace inp (Suc ba) = COMMA"
      "\<not> length inp \<le> skip_whitespace inp (Suc (skip_whitespace inp (Suc ba)))"
      "inp ! skip_whitespace inp (Suc (skip_whitespace inp (Suc ba))) \<noteq> RBRACE"
    then show "parse_object_parse_object_loop_parse_array_parse_array_loop_inner_parse_json_dom
          (Inl (Inr (N, inp, skip_whitespace inp (Suc ba), AList.update a aa result)))"
      using 2(2)[of "skip_whitespace inp (index + 1)" "(a, b)" a b "skip_whitespace inp (b + 1)"
          "skip_whitespace inp (skip_whitespace inp (b + 1) + 1)" "(aa, ba)" aa ba
          "AList.update a aa result" "skip_whitespace inp (ba + 1)"
          "skip_whitespace inp (skip_whitespace inp (ba + 1) + 1)"]
      by simp
  next
    fix a b aa ba
    assume "\<not> length inp \<le> index" "inp ! index \<noteq> RBRACE"
      "parse_string N inp (skip_whitespace inp (Suc index)) = Inr (a, b)"
      "\<not> length inp \<le> skip_whitespace inp (Suc b)"
      "inp ! skip_whitespace inp (Suc b) = COLON"
      "inner_parse_json N inp (skip_whitespace inp (Suc (skip_whitespace inp (Suc b)))) = Inr (aa, ba)"
      "\<not> length inp \<le> skip_whitespace inp (Suc ba)"
      "inp ! skip_whitespace inp (Suc ba) = RBRACE"
    then show "parse_object_parse_object_loop_parse_array_parse_array_loop_inner_parse_json_dom
          (Inl (Inr (N, inp, skip_whitespace inp (Suc ba), AList.update a aa result)))"
      using 2(3)[of "skip_whitespace inp (index + 1)" "(a, b)" a b "skip_whitespace inp (b + 1)"
          "skip_whitespace inp (skip_whitespace inp (b + 1) + 1)" "(aa, ba)" aa ba
          "AList.update a aa result" "skip_whitespace inp (ba + 1)"]
      by simp
  qed
next
  case (3 N inp index)
  show ?case
    by (rule parse_object_parse_object_loop_parse_array_parse_array_loop_inner_parse_json.domintros)
       (rule 3, simp_all)
next
  case (4 N inp index result)
  show ?case
  proof (rule parse_object_parse_object_loop_parse_array_parse_array_loop_inner_parse_json.domintros)
    assume "\<not> length inp \<le> index" "inp ! index \<noteq> RBRACKET"
    then show "parse_object_parse_object_loop_parse_array_parse_array_loop_inner_parse_json_dom
       (Inr (Inr (Inr (N, inp, skip_whitespace inp (Suc index)))))"
      using 4(1)[of "skip_whitespace inp (index + 1)"] by simp
  next
    fix a b
    assume "\<not> length inp \<le> index" "inp ! index \<noteq> RBRACKET"
      "inner_parse_json N inp (skip_whitespace inp (Suc index)) = Inr (a, b)"
      "\<not> length inp \<le> skip_whitespace inp (Suc b)"
      "inp ! skip_whitespace inp (Suc b) = COMMA"
      "\<not> length inp \<le> skip_whitespace inp (Suc (skip_whitespace inp (Suc b)))"
      "inp ! skip_whitespace inp (Suc (skip_whitespace inp (Suc b))) \<noteq> RBRACKET"
    then show "parse_object_parse_object_loop_parse_array_parse_array_loop_inner_parse_json_dom
             (Inr (Inr (Inl (N, inp, skip_whitespace inp (Suc b), result @ [a]))))"
      using 4(2)[of "skip_whitespace inp (index + 1)" "(a, b)" a b "result @ [a]"
          "skip_whitespace inp (b + 1)" "skip_whitespace inp (skip_whitespace inp (b + 1) + 1)"]
      by simp
  next
    fix a b
    assume "\<not> length inp \<le> index" "inp ! index \<noteq> RBRACKET"
      "inner_parse_json N inp (skip_whitespace inp (Suc index)) = Inr (a, b)"
      "\<not> length inp \<le> skip_whitespace inp (Suc b)"
      "inp ! skip_whitespace inp (Suc b) = RBRACKET"
    then show "parse_object_parse_object_loop_parse_array_parse_array_loop_inner_parse_json_dom
             (Inr (Inr (Inl (N, inp, skip_whitespace inp (Suc b), result @ [a]))))"
      using 4(3)[of "skip_whitespace inp (index + 1)" "(a, b)" a b "result @ [a]"
          "skip_whitespace inp (b + 1)"]
      by simp
  qed
next
  case (5 N inp index)
  show ?case
  proof (rule parse_object_parse_object_loop_parse_array_parse_array_loop_inner_parse_json.domintros)
    assume "\<not> length inp \<le> index" "inp ! index = LBRACE"
    then show "parse_object_parse_object_loop_parse_array_parse_array_loop_inner_parse_json_dom
       (Inl (Inl (N, inp, index)))"
      using 5(1)[of "inp ! index"] by simp
  next
    assume "\<not> length inp \<le> index" "inp ! index = LBRACKET"
    then show "parse_object_parse_object_loop_parse_array_parse_array_loop_inner_parse_json_dom
       (Inr (Inl (N, inp, index)))"
      using 5(2)[of "inp ! index"] by simp
  qed
qed

lemma inner_bounds: "inner_parse_json N inp i = Inr (v, e) \<Longrightarrow> i \<le> e \<and> e < length inp"
  using parse_bounds_partial(5)[OF all_dom(5)] by blast

lemma object_loop_bounds:
  "parse_object_loop N inp i r = Inr (v, e) \<Longrightarrow> i \<le> e \<and> e < length inp"
  using parse_bounds_partial(2)[OF all_dom(2)] by blast

lemma array_loop_bounds:
  "parse_array_loop N inp i r = Inr (v, e) \<Longrightarrow> i \<le> e \<and> e < length inp"
  using parse_bounds_partial(4)[OF all_dom(4)] by blast

text \<open>
  Induction over the structural parsers of one input: a loop may assume the property at
  every later offset, a parser at its own loop, the dispatcher at the two parsers.
\<close>


lemma parser_induct:
  assumes obj: "\<And>i. (\<And>r. POL i r) \<Longrightarrow> PO i"
    and oloop: "\<And>i r. (\<And>j. i < j \<Longrightarrow> j \<le> length inp \<Longrightarrow> PI j) \<Longrightarrow>
                 (\<And>j r'. i < j \<Longrightarrow> j < length inp \<Longrightarrow> POL j r') \<Longrightarrow> POL i r"
    and arr: "\<And>i. (\<And>r. PAL i r) \<Longrightarrow> PA i"
    and aloop: "\<And>i r. (\<And>j. i < j \<Longrightarrow> j \<le> length inp \<Longrightarrow> PI j) \<Longrightarrow>
                 (\<And>j r'. i < j \<Longrightarrow> j < length inp \<Longrightarrow> PAL j r') \<Longrightarrow> PAL i r"
    and inner: "\<And>i. PO i \<Longrightarrow> PA i \<Longrightarrow> PI (i::nat)"
  shows "PO i \<and> (\<forall>r. POL i r) \<and> PA i \<and> (\<forall>r. PAL i r) \<and> PI i"
proof (induction "length inp - i" arbitrary: i rule: less_induct)
  case less
  have ih: "PO j \<and> (\<forall>r. POL j r) \<and> PA j \<and> (\<forall>r. PAL j r) \<and> PI j"
    if "i < j" "j \<le> length inp" for j
    using less[of j] that by simp
  have pol: "POL i r" for r
    by (rule oloop) (use ih in auto)
  have pal: "PAL i r" for r
    by (rule aloop) (use ih in auto)
  have po: "PO i" by (rule obj) (rule pol)
  have pa: "PA i" by (rule arr) (rule pal)
  have pi: "PI i" by (rule inner[OF po pa])
  from po pol pa pal pi show ?case by blast
qed

section \<open>Error messages\<close>

text \<open>
  \<open>templated inp e\<close>: if the exception \<open>e\<close> is an \<^verbatim>\<open>InvalidJSONError\<close>, its message is
  the default message for \<open>inp\<close> at some offset up to the length of \<open>inp\<close>.
\<close>


definition templated :: "pystr \<Rightarrow> error \<Rightarrow> bool" where
  "templated inp e \<longleftrightarrow>
     (case e of InvalidJSONError m \<Rightarrow> \<exists>k\<le>length inp. m = error_message inp k | _ \<Rightarrow> True)"

lemma templated_simps:
  "templated inp IndexError" "templated inp ValueError"
  "templated inp UnicodeEncodeError" "templated inp UnicodeDecodeError"
  "k \<le> length inp \<Longrightarrow> templated inp (InvalidJSONError (error_message inp k))"
  by (auto simp: templated_def)

lemma scan_error: "parse_string_scan inp i = Inl e \<Longrightarrow> e = IndexError"
proof (induction inp i rule: parse_string_scan.induct)
  case (1 inp i)
  then show ?case
    by (subst (asm) (3) parse_string_scan.simps) (auto split: if_splits)
qed

lemma utf8_encode_error: "utf8_encode s = Inl e \<Longrightarrow> e = UnicodeEncodeError"
  by (induction s arbitrary: e) (auto simp: utf8_char_def split: if_splits sum.splits)

lemma escape_step_error: "escape_step N c s = Inl e \<Longrightarrow> e = UnicodeDecodeError"
  by (auto simp: escape_step_def Let_def split: if_splits list.splits option.splits)

lemma decode_error: "unicode_escape_decode N bs = Inl e \<Longrightarrow> e = UnicodeDecodeError"
proof (induction N bs arbitrary: e rule: unicode_escape_decode.induct)
  case (1 N)
  then show ?case by simp
next
  case (2 N c s)
  then show ?case
    by (auto split: sum.splits prod.splits dest: escape_step_error)
qed

lemma string_error: "parse_string N inp i = Inl e \<Longrightarrow> templated inp e"
  by (auto simp: parse_string_def Let_def raise_invalid_json_error_def templated_simps
           split: if_splits sum.splits
           dest!: scan_error utf8_encode_error decode_error)

lemma number_loop_error: "parse_number_loop inp i rs dc = Inl e \<Longrightarrow> templated inp e"
proof (induction inp i rs dc rule: parse_number_loop.induct)
  case (1 inp i rs dc)
  note r = "1.prems"[unfolded parse_number_loop.simps[of inp i rs dc]]
  show ?case
  proof (cases "i < length inp \<and> (is_digit (inp ! i) \<or> inp ! i = DOT)")
    case False
    with r show ?thesis by (auto simp: templated_simps split: if_splits)
  next
    case nc: True
    show ?thesis
    proof (cases "inp ! i = DOT")
      case True
      show ?thesis
      proof (cases "\<not> dc + 1 > 1 \<and> \<not> length inp \<le> i + 1 \<and> is_digit (inp ! (i + 1))")
        case False
        with r nc True show ?thesis
          by (auto simp: Let_def raise_invalid_json_error_def templated_simps split: if_splits)
      next
        case c: True
        with r nc True have rec: "parse_number_loop inp (i + 1) (rs @ [inp ! i]) (dc + 1) = Inl e"
          by (auto simp: Let_def split: if_splits)
        from nc c have "\<not> length inp \<le> i" "is_digit (inp ! i) \<or> inp ! i = DOT"
          "\<not> dc + 1 > 1" "\<not> length inp \<le> i + 1" "\<not> \<not> is_digit (inp ! (i + 1))" by auto
        from "1.IH"(1)[OF this(1,2) refl True refl this(3,4,5) rec] show ?thesis .
      qed
    next
      case False
      with r nc have rec: "parse_number_loop inp (i + 1) (rs @ [inp ! i]) dc = Inl e"
        by (auto simp: Let_def)
      from nc have "\<not> length inp \<le> i" "is_digit (inp ! i) \<or> inp ! i = DOT" by auto
      from "1.IH"(2)[OF this refl False rec] show ?thesis .
    qed
  qed
qed

lemma py_int_error: "py_int s = Inl e \<Longrightarrow> e = ValueError"
  by (simp add: py_int_def split: if_splits)

lemma number_error: "parse_number inp i = Inl e \<Longrightarrow> templated inp e"
  by (auto simp: parse_number_def raise_invalid_json_error_def templated_simps
           split: if_splits sum.splits prod.splits error.splits
           dest: number_loop_error parse_number_loop_bounds py_int_error)

lemma literal_error:
  "parse_true inp i = Inl e \<Longrightarrow> templated inp e"
  "parse_false inp i = Inl e \<Longrightarrow> templated inp e"
  "parse_null inp i = Inl e \<Longrightarrow> templated inp e"
  by (auto simp: parse_true_def parse_false_def parse_null_def raise_invalid_json_error_def
           templated_simps split: if_splits)


lemma object_loop_stages:
  assumes r: "parse_object_loop N inp i res = Inl e"
  shows "templated inp e \<or>
     (\<exists>j. i < j \<and> j \<le> length inp \<and> inner_parse_json N inp j = Inl e) \<or>
     (\<exists>j r'. i < j \<and> j < length inp \<and> parse_object_loop N inp j r' = Inl e)"
proof (cases "i < length inp \<and> inp ! i \<noteq> RBRACE")
  case False
  with r show ?thesis
    by (subst (asm) parse_object_loop.simps) (auto simp: templated_simps split: if_splits)
next
  case True
  define x where "x = skip_whitespace inp (i + 1)"
  have ix: "i < x" using True skip_next[of i inp] by (simp add: x_def)
  show ?thesis
  proof (cases "parse_string N inp x")
    case (Inl e')
    with r True have "e = e'"
      by (subst (asm) parse_object_loop.simps) (simp add: x_def Let_def)
    with Inl show ?thesis by (auto dest: string_error)
  next
    case (Inr ky)
    obtain k y where ky: "ky = (k, y)" by (cases ky)
    with Inr have ps: "parse_string N inp x = Inr (k, y)" by simp
    from parse_string_bounds[OF ps] have xy: "x < y" "y < length inp" by auto
    define xb where "xb = skip_whitespace inp (y + 1)"
    have yxb: "y < xb" using skip_next[of y inp] xy by (simp add: xb_def)
    show ?thesis
    proof (cases "xb < length inp \<and> inp ! xb = COLON")
      case False
      with r True ps have "e = IndexError \<or> e = InvalidJSONError (error_message inp i)"
        by (subst (asm) parse_object_loop.simps)
           (auto simp: x_def xb_def Let_def raise_invalid_json_error_def split: if_splits)
      with True show ?thesis by (auto simp: templated_simps)
    next
      case colon: True
      define xc where "xc = skip_whitespace inp (xb + 1)"
      have xbc: "xb < xc" using skip_next[of xb inp] colon by (simp add: xc_def)
      have xcl: "xc \<le> length inp" unfolding xc_def by (rule skip_whitespace_le)
      show ?thesis
      proof (cases "inner_parse_json N inp xc")
        case (Inl e')
        with r True ps colon have "e = e'"
          by (subst (asm) parse_object_loop.simps) (simp add: x_def xb_def xc_def Let_def)
        with Inl ix xy yxb xbc xcl show ?thesis by (intro disjI2 disjI1 exI[of _ xc]) simp
      next
        case (Inr vy)
        obtain v ya where vy: "vy = (v, ya)" by (cases vy)
        with Inr have ip: "inner_parse_json N inp xc = Inr (v, ya)" by simp
        from inner_bounds[OF ip] have ya: "xc \<le> ya" "ya < length inp" by auto
        define xf where "xf = skip_whitespace inp (ya + 1)"
        have yaf: "ya < xf" using skip_next[of ya inp] ya by (simp add: xf_def)
        from r True ps colon ip
        have "e = IndexError \<or> e = InvalidJSONError (error_message inp (xf + 1)) \<and> xf < length inp \<or>
              e = InvalidJSONError (error_message inp xf) \<and> xf < length inp \<or>
              xf < length inp \<and> parse_object_loop N inp xf (AList.update k v res) = Inl e"
          by (subst (asm) parse_object_loop.simps)
             (auto simp: x_def xb_def xc_def xf_def Let_def raise_invalid_json_error_def
                   split: if_splits)
        then show ?thesis
        proof (elim disjE conjE)
          assume "xf < length inp" "parse_object_loop N inp xf (AList.update k v res) = Inl e"
          with ix xy yxb xbc ya yaf show ?thesis
            by (intro disjI2 exI[of _ xf] exI[of _ "AList.update k v res"]) simp
        qed (auto simp: templated_simps)
      qed
    qed
  qed
qed

lemma array_loop_stages:
  assumes r: "parse_array_loop N inp i res = Inl e"
  shows "templated inp e \<or>
     (\<exists>j. i < j \<and> j \<le> length inp \<and> inner_parse_json N inp j = Inl e) \<or>
     (\<exists>j r'. i < j \<and> j < length inp \<and> parse_array_loop N inp j r' = Inl e)"
proof (cases "i < length inp \<and> inp ! i \<noteq> RBRACKET")
  case False
  with r show ?thesis
    by (subst (asm) parse_array_loop.simps) (auto simp: templated_simps split: if_splits)
next
  case True
  define xc where "xc = skip_whitespace inp (i + 1)"
  have ix: "i < xc" using True skip_next[of i inp] by (simp add: xc_def)
  have xcl: "xc \<le> length inp" unfolding xc_def by (rule skip_whitespace_le)
  show ?thesis
  proof (cases "inner_parse_json N inp xc")
    case (Inl e')
    with r True have "e = e'"
      by (subst (asm) parse_array_loop.simps) (simp add: xc_def Let_def)
    with Inl ix xcl show ?thesis by (intro disjI2 disjI1 exI[of _ xc]) simp
  next
    case (Inr vy)
    obtain v ya where vy: "vy = (v, ya)" by (cases vy)
    with Inr have ip: "inner_parse_json N inp xc = Inr (v, ya)" by simp
    from inner_bounds[OF ip] have ya: "xc \<le> ya" "ya < length inp" by auto
    define xf where "xf = skip_whitespace inp (ya + 1)"
    have yaf: "ya < xf" using skip_next[of ya inp] ya by (simp add: xf_def)
    from r True ip
    have "e = IndexError \<or> e = InvalidJSONError (error_message inp (xf + 1)) \<and> xf < length inp \<or>
          e = InvalidJSONError (error_message inp xf) \<and> xf < length inp \<or>
          xf < length inp \<and> parse_array_loop N inp xf (res @ [v]) = Inl e"
      by (subst (asm) parse_array_loop.simps)
         (auto simp: xc_def xf_def Let_def raise_invalid_json_error_def split: if_splits)
    then show ?thesis
    proof (elim disjE conjE)
      assume "xf < length inp" "parse_array_loop N inp xf (res @ [v]) = Inl e"
      with ix ya yaf show ?thesis
        by (intro disjI2 exI[of _ xf] exI[of _ "res @ [v]"]) simp
    qed (auto simp: templated_simps)
  qed
qed

lemma structural_error:
  "(\<forall>e. parse_object N inp i = Inl e \<longrightarrow> templated inp e) \<and>
   (\<forall>r e. parse_object_loop N inp i r = Inl e \<longrightarrow> templated inp e) \<and>
   (\<forall>e. parse_array N inp i = Inl e \<longrightarrow> templated inp e) \<and>
   (\<forall>r e. parse_array_loop N inp i r = Inl e \<longrightarrow> templated inp e) \<and>
   (\<forall>e. inner_parse_json N inp i = Inl e \<longrightarrow> templated inp e)"
proof (rule parser_induct[where
      PO = "\<lambda>i. \<forall>e. parse_object N inp i = Inl e \<longrightarrow> templated inp e" and
      POL = "\<lambda>i r. \<forall>e. parse_object_loop N inp i r = Inl e \<longrightarrow> templated inp e" and
      PA = "\<lambda>i. \<forall>e. parse_array N inp i = Inl e \<longrightarrow> templated inp e" and
      PAL = "\<lambda>i r. \<forall>e. parse_array_loop N inp i r = Inl e \<longrightarrow> templated inp e" and
      PI = "\<lambda>i. \<forall>e. inner_parse_json N inp i = Inl e \<longrightarrow> templated inp e" and
      inp = inp])
  fix i
  assume "\<And>r. \<forall>e. parse_object_loop N inp i r = Inl e \<longrightarrow> templated inp e"
  then show "\<forall>e. parse_object N inp i = Inl e \<longrightarrow> templated inp e"
    by (auto simp: parse_object.simps raise_invalid_json_error_def templated_simps
             split: if_splits)
next
  fix i r
  assume "\<And>j. i < j \<Longrightarrow> j \<le> length inp \<Longrightarrow>
            \<forall>e. inner_parse_json N inp j = Inl e \<longrightarrow> templated inp e"
    and "\<And>j r'. i < j \<Longrightarrow> j < length inp \<Longrightarrow>
            \<forall>e. parse_object_loop N inp j r' = Inl e \<longrightarrow> templated inp e"
  then show "\<forall>e. parse_object_loop N inp i r = Inl e \<longrightarrow> templated inp e"
    using object_loop_stages[of N inp i r] by blast
next
  fix i
  assume "\<And>r. \<forall>e. parse_array_loop N inp i r = Inl e \<longrightarrow> templated inp e"
  then show "\<forall>e. parse_array N inp i = Inl e \<longrightarrow> templated inp e"
    by (auto simp: parse_array.simps raise_invalid_json_error_def templated_simps
             split: if_splits)
next
  fix i r
  assume "\<And>j. i < j \<Longrightarrow> j \<le> length inp \<Longrightarrow>
            \<forall>e. inner_parse_json N inp j = Inl e \<longrightarrow> templated inp e"
    and "\<And>j r'. i < j \<Longrightarrow> j < length inp \<Longrightarrow>
            \<forall>e. parse_array_loop N inp j r' = Inl e \<longrightarrow> templated inp e"
  then show "\<forall>e. parse_array_loop N inp i r = Inl e \<longrightarrow> templated inp e"
    using array_loop_stages[of N inp i r] by blast
next
  fix i
  assume "\<forall>e. parse_object N inp i = Inl e \<longrightarrow> templated inp e"
    and "\<forall>e. parse_array N inp i = Inl e \<longrightarrow> templated inp e"
  then show "\<forall>e. inner_parse_json N inp i = Inl e \<longrightarrow> templated inp e"
    by (auto simp: inner_parse_json.simps Let_def templated_simps
             split: if_splits sum.splits
             dest: string_error number_error literal_error)
qed

lemma decode_error_templated: "parse_json N inp = Inl e \<Longrightarrow> templated inp e"
proof -
  assume a: "parse_json N inp = Inl e"
  have body: "templated inp e'" if "parse_json_body N inp j = Inl e'" for j e'
    using that structural_error[of N inp j] skip_whitespace_le[of inp]
    by (auto simp: parse_json_body_def Let_def raise_invalid_json_error_def templated_simps
             split: sum.splits if_splits)
  from a show ?thesis
    using skip_whitespace_le[of inp 0]
    by (auto simp: parse_json_def Let_def raise_invalid_json_error_def templated_simps
             split: if_splits sum.splits error.splits dest: body)
qed


text \<open>
  The one message text of the module, in the words of \<^verbatim>\<open>raise_invalid_json_error\<close>: the
  line \<^verbatim>\<open>Unexpected token at char(k):\<close>, the input, and a line of \<open>k\<close> spaces with a caret.
\<close>

definition unexpected_token_message :: "pystr \<Rightarrow> nat \<Rightarrow> pystr" where
  "unexpected_token_message inp k =
     str_of ''Unexpected token at char('' @ str_nat k @ str_of ''):'' @ [10] @
     inp @ [10] @ replicate k 32 @ str_of ''^''"

lemma message_is_template: "error_message inp k = unexpected_token_message inp k"
  by (simp add: error_message_def unexpected_token_message_def)

lemma str_nat_digits: "list_all is_digit (str_nat n)"
proof (induction n rule: str_nat.induct)
  case (1 n)
  show ?case
  proof (cases "n < 10")
    case True
    then show ?thesis by (subst str_nat.simps) (simp add: is_digit_def)
  next
    case False
    have "n mod 10 < 10" by simp
    then have "is_digit (48 + n mod 10)" unfolding is_digit_def by linarith
    with False "1.IH" show ?thesis by (subst str_nat.simps) simp
  qed
qed

lemma str_nat_not_Nil: "str_nat n \<noteq> []"
  by (subst str_nat.simps) simp

lemma decimal_value_snoc: "decimal_value (a @ [d]) = decimal_value a * 10 + (int d - 48)"
  by (simp add: decimal_value_append)

lemma decimal_value_str_nat: "decimal_value (str_nat n) = int n"
proof (induction n rule: str_nat.induct)
  case (1 n)
  show ?case
  proof (cases "n < 10")
    case True
    then show ?thesis by (subst str_nat.simps) simp
  next
    case False
    have "decimal_value (str_nat n) = int (n div 10) * 10 + int (n mod 10)"
      using False "1.IH" by (subst str_nat.simps) (simp add: decimal_value_snoc)
    also have "\<dots> = int n" by presburger
    finally show ?thesis .
  qed
qed

lemma str_nat_inj: "str_nat a = str_nat b \<Longrightarrow> a = b"
proof -
  assume "str_nat a = str_nat b"
  then have "decimal_value (str_nat a) = decimal_value (str_nat b)" by (rule arg_cong)
  then have "int a = int b" by (simp only: decimal_value_str_nat)
  then show "a = b" by (simp only: of_nat_eq_iff)
qed

lemma digits_prefix_unique:
  assumes "list_all is_digit a" "list_all is_digit b" "\<not> is_digit c" "\<not> is_digit c'"
    and "a @ c # r = b @ c' # r'"
  shows "a = b \<and> r = r'"
proof -
  have "takeWhile is_digit (a @ c # r) = a"
    using assms(1,3) by (simp add: takeWhile_append2 list_all_iff)
  moreover have "takeWhile is_digit (b @ c' # r') = b"
    using assms(2,4) by (simp add: takeWhile_append2 list_all_iff)
  ultimately have "a = b" using assms(5) by simp
  with assms(5) show ?thesis by simp
qed

lemma template_inj:
  assumes "unexpected_token_message inp k = unexpected_token_message inp' k'"
  shows "inp = inp' \<and> k = k'"
proof -
  from assms have "str_nat k @ 41 # ([58, 10] @ inp @ [10] @ replicate k 32 @ [94]) =
      str_nat k' @ 41 # ([58, 10] @ inp' @ [10] @ replicate k' 32 @ [94])"
    by (simp add: unexpected_token_message_def str_of_def)
  from digits_prefix_unique[OF str_nat_digits str_nat_digits _ _ this]
  have a: "str_nat k = str_nat k'"
    and b: "[58, 10] @ inp @ [10] @ replicate k 32 @ [94] =
            [58, 10] @ inp' @ [10] @ replicate k' 32 @ [94]"
    by (simp_all add: is_digit_def)
  from a have k: "k = k'" by (rule str_nat_inj)
  from b k have "inp @ ([10] @ replicate k 32 @ [94]) = inp' @ ([10] @ replicate k 32 @ [94])"
    by simp
  then have "inp = inp'" by (simp only: append_same_eq)
  with k show ?thesis by simp
qed

lemma string_error_at:
  "parse_string N inp i = Inl (InvalidJSONError m) \<Longrightarrow> m = error_message inp i"
  by (auto simp: parse_string_def Let_def raise_invalid_json_error_def
           split: if_splits sum.splits
           dest!: scan_error utf8_encode_error decode_error)

lemma literal_error_at:
  "parse_true inp i = Inl (InvalidJSONError m) \<Longrightarrow> m = error_message inp i"
  "parse_false inp i = Inl (InvalidJSONError m) \<Longrightarrow> m = error_message inp i"
  "parse_null inp i = Inl (InvalidJSONError m) \<Longrightarrow> m = error_message inp i"
  by (auto simp: parse_true_def parse_false_def parse_null_def raise_invalid_json_error_def
           split: if_splits)

text \<open>
  Claim C8, as amended. Every failure is surfaced as \<^verbatim>\<open>InvalidJSONError\<close> with the same
  message text: whatever the situation, the message that leaves the entry point, the
  dispatcher or a scalar parser is \<open>unexpected_token_message\<close> for the input and an
  offset \<open>k\<close> up to the length of the input (for the string and literal parsers, the
  offset they were called at). The message names no situation: two messages are equal
  exactly when their inputs and their offsets are.
\<close>

theorem one_message_template:
  "(parse_json N inp = Inl (InvalidJSONError m) \<longrightarrow>
      (\<exists>k\<le>length inp. m = unexpected_token_message inp k)) \<and>
   (inner_parse_json N inp i = Inl (InvalidJSONError m) \<longrightarrow>
      (\<exists>k\<le>length inp. m = unexpected_token_message inp k)) \<and>
   (parse_number inp i = Inl (InvalidJSONError m) \<longrightarrow>
      (\<exists>k\<le>length inp. m = unexpected_token_message inp k)) \<and>
   (parse_string N inp i = Inl (InvalidJSONError m) \<longrightarrow> m = unexpected_token_message inp i) \<and>
   (parse_true inp i = Inl (InvalidJSONError m) \<longrightarrow> m = unexpected_token_message inp i) \<and>
   (parse_false inp i = Inl (InvalidJSONError m) \<longrightarrow> m = unexpected_token_message inp i) \<and>
   (parse_null inp i = Inl (InvalidJSONError m) \<longrightarrow> m = unexpected_token_message inp i) \<and>
   ((unexpected_token_message inp k = unexpected_token_message inp' k') =
      (inp = inp' \<and> k = k'))"
proof (intro conjI impI)
  assume "parse_json N inp = Inl (InvalidJSONError m)"
  from decode_error_templated[OF this]
  show "\<exists>k\<le>length inp. m = unexpected_token_message inp k"
    by (simp add: templated_def message_is_template)
next
  assume "inner_parse_json N inp i = Inl (InvalidJSONError m)"
  with structural_error[of N inp i]
  show "\<exists>k\<le>length inp. m = unexpected_token_message inp k"
    by (auto simp: templated_def message_is_template)
next
  assume "parse_number inp i = Inl (InvalidJSONError m)"
  from number_error[OF this]
  show "\<exists>k\<le>length inp. m = unexpected_token_message inp k"
    by (simp add: templated_def message_is_template)
next
  assume "parse_string N inp i = Inl (InvalidJSONError m)"
  from string_error_at[OF this] show "m = unexpected_token_message inp i"
    by (simp add: message_is_template)
next
  assume "parse_true inp i = Inl (InvalidJSONError m)"
  from literal_error_at(1)[OF this] show "m = unexpected_token_message inp i"
    by (simp add: message_is_template)
next
  assume "parse_false inp i = Inl (InvalidJSONError m)"
  from literal_error_at(2)[OF this] show "m = unexpected_token_message inp i"
    by (simp add: message_is_template)
next
  assume "parse_null inp i = Inl (InvalidJSONError m)"
  from literal_error_at(3)[OF this] show "m = unexpected_token_message inp i"
    by (simp add: message_is_template)
next
  show "(unexpected_token_message inp k = unexpected_token_message inp' k') =
      (inp = inp' \<and> k = k')"
    using template_inj[of inp k inp' k'] by blast
qed


text \<open>
  Witness for C8: one document for each situation that the specification lists, with the
  message that decoding raises. In order: unexpected token, unterminated string, invalid
  number, invalid literal, missing colon, missing comma, trailing comma, empty input,
  invalid root, trailing content, end of input. The message of the trailing comma is
  written out.
\<close>

theorem one_message_template_witness:
  \<open>parse_json no_names (str_of ''[x]'') =
     Inl (InvalidJSONError (unexpected_token_message (str_of ''[x]'') 1)) \<and>
   parse_json no_names (str_of ''["abc'') =
     Inl (InvalidJSONError (unexpected_token_message (str_of ''["abc'') 5)) \<and>
   parse_json no_names (str_of ''[1.2.3]'') =
     Inl (InvalidJSONError (unexpected_token_message (str_of ''[1.2.3]'') 4)) \<and>
   parse_json no_names (str_of ''[tru]'') =
     Inl (InvalidJSONError (unexpected_token_message (str_of ''[tru]'') 1)) \<and>
   parse_json no_names (str_of ''{"a" 1}'') =
     Inl (InvalidJSONError (unexpected_token_message (str_of ''{"a" 1}'') 0)) \<and>
   parse_json no_names (str_of ''[1 2]'') =
     Inl (InvalidJSONError (unexpected_token_message (str_of ''[1 2]'') 3)) \<and>
   parse_json no_names (str_of ''[1,]'') =
     Inl (InvalidJSONError (unexpected_token_message (str_of ''[1,]'') 3)) \<and>
   parse_json no_names (str_of '''') =
     Inl (InvalidJSONError (unexpected_token_message (str_of '''') 0)) \<and>
   parse_json no_names (str_of ''123'') =
     Inl (InvalidJSONError (unexpected_token_message (str_of ''123'') 0)) \<and>
   parse_json no_names (str_of ''{"a": 1} x'') =
     Inl (InvalidJSONError (unexpected_token_message (str_of ''{"a": 1} x'') 9)) \<and>
   parse_json no_names (str_of ''[1'') =
     Inl (InvalidJSONError (unexpected_token_message (str_of ''[1'') 2)) \<and>
   unexpected_token_message (str_of ''[1,]'') 3 =
     str_of ''Unexpected token at char(3):'' @ [10] @ str_of ''[1,]'' @ [10] @ str_of ''   ^'' \<and>
   (\<exists>k\<le>length (str_of ''[1,]'').
      unexpected_token_message (str_of ''[1,]'') 3 = unexpected_token_message (str_of ''[1,]'') k)\<close>
proof -
  have a: \<open>parse_json no_names (str_of ''[1,]'') =
     Inl (InvalidJSONError (unexpected_token_message (str_of ''[1,]'') 3))\<close>
    by (simp add: eval_simps message_is_template[symmetric])
  from one_message_template [of no_names \<open>str_of ''[1,]''\<close>
      \<open>unexpected_token_message (str_of ''[1,]'') 3\<close>] a
  have b: \<open>\<exists>k\<le>length (str_of ''[1,]'').
      unexpected_token_message (str_of ''[1,]'') 3 = unexpected_token_message (str_of ''[1,]'') k\<close>
    by blast
  have c: \<open>unexpected_token_message (str_of ''[1,]'') 3 =
     str_of ''Unexpected token at char(3):'' @ [10] @ str_of ''[1,]'' @ [10] @ str_of ''   ^''\<close>
  proof -
    have r: "replicate 3 (32::nat) = [32, 32, 32]" by (simp add: numeral_3_eq_3)
    have s: "str_nat 3 = [51]" by (subst str_nat.simps) simp
    show ?thesis by (simp add: unexpected_token_message_def str_of_def r s)
  qed
  have d: \<open>parse_json no_names (str_of ''[x]'') =
     Inl (InvalidJSONError (unexpected_token_message (str_of ''[x]'') 1)) \<and>
   parse_json no_names (str_of ''["abc'') =
     Inl (InvalidJSONError (unexpected_token_message (str_of ''["abc'') 5)) \<and>
   parse_json no_names (str_of ''[1.2.3]'') =
     Inl (InvalidJSONError (unexpected_token_message (str_of ''[1.2.3]'') 4)) \<and>
   parse_json no_names (str_of ''[tru]'') =
     Inl (InvalidJSONError (unexpected_token_message (str_of ''[tru]'') 1)) \<and>
   parse_json no_names (str_of ''{"a" 1}'') =
     Inl (InvalidJSONError (unexpected_token_message (str_of ''{"a" 1}'') 0))\<close>
    by (simp add: eval_simps message_is_template[symmetric])
  have e: \<open>parse_json no_names (str_of ''[1 2]'') =
     Inl (InvalidJSONError (unexpected_token_message (str_of ''[1 2]'') 3)) \<and>
   parse_json no_names (str_of '''') =
     Inl (InvalidJSONError (unexpected_token_message (str_of '''') 0)) \<and>
   parse_json no_names (str_of ''123'') =
     Inl (InvalidJSONError (unexpected_token_message (str_of ''123'') 0)) \<and>
   parse_json no_names (str_of ''{"a": 1} x'') =
     Inl (InvalidJSONError (unexpected_token_message (str_of ''{"a": 1} x'') 9)) \<and>
   parse_json no_names (str_of ''[1'') =
     Inl (InvalidJSONError (unexpected_token_message (str_of ''[1'') 2))\<close>
    by (simp add: eval_simps message_is_template[symmetric])
  from a b c d e show ?thesis by blast
qed

text \<open>
  Counterexample to C8 as stated: on the text \<^verbatim>\<open>trux\<close> four situations have the same
  message. The entry point rejects the root, \<open>parse_true\<close> rejects the literal,
  \<open>parse_number\<close> rejects the number and \<open>parse_string\<close> rejects the token, each with
  \<^verbatim>\<open>InvalidJSONError\<close> and the text \<^verbatim>\<open>Unexpected token at char(0):\<close>, the input and a
  caret.
\<close>

theorem messages_not_distinguished:
  \<open>parse_json no_names (str_of ''trux'') =
     Inl (InvalidJSONError (str_of ''Unexpected token at char(0):'' @ [10] @ str_of ''trux'' @
                            [10] @ str_of ''^'')) \<and>
   parse_true (str_of ''trux'') 0 =
     Inl (InvalidJSONError (str_of ''Unexpected token at char(0):'' @ [10] @ str_of ''trux'' @
                            [10] @ str_of ''^'')) \<and>
   parse_number (str_of ''trux'') 0 =
     Inl (InvalidJSONError (str_of ''Unexpected token at char(0):'' @ [10] @ str_of ''trux'' @
                            [10] @ str_of ''^'')) \<and>
   parse_string no_names (str_of ''trux'') 0 =
     Inl (InvalidJSONError (str_of ''Unexpected token at char(0):'' @ [10] @ str_of ''trux'' @
                            [10] @ str_of ''^''))\<close>
  by (simp add: eval_simps error_message_def str_nat.simps[of 0])

section \<open>Duplicate keys\<close>


text \<open>
  One round of the loop of \<^verbatim>\<open>parse_object\<close> at \<^verbatim>\<open>index\<close>: the loop ends (\<open>None\<close>), or the
  round reads a key and a value and leaves the loop at the offset of the comma or brace
  after them, or it raises.
\<close>

definition object_step ::
    "names \<Rightarrow> pystr \<Rightarrow> nat \<Rightarrow> error + ((pystr \<times> json) \<times> nat) option" where
  "object_step N inp index =
     (if index \<ge> length inp then Inl IndexError
      else if inp ! index = RBRACE then Inr None
      else let key_start_index = skip_whitespace inp (index + 1) in
        case parse_string N inp key_start_index of
          Inl e \<Rightarrow> Inl e
        | Inr (key, key_end_index) \<Rightarrow>
            let colon_index = skip_whitespace inp (key_end_index + 1) in
            if colon_index \<ge> length inp then Inl IndexError
            else if inp ! colon_index \<noteq> COLON then raise_invalid_json_error inp index
            else let value_start_index = skip_whitespace inp (colon_index + 1) in
              case inner_parse_json N inp value_start_index of
                Inl e \<Rightarrow> Inl e
              | Inr (value, value_end_index) \<Rightarrow>
                  let next_character_index = skip_whitespace inp (value_end_index + 1) in
                  if next_character_index \<ge> length inp then Inl IndexError
                  else if inp ! next_character_index = COMMA then
                    (let peek = skip_whitespace inp (next_character_index + 1) in
                     if peek \<ge> length inp then Inl IndexError
                     else if inp ! peek = RBRACE
                       then raise_invalid_json_error inp (next_character_index + 1)
                     else Inr (Some ((key, value), next_character_index)))
                  else if inp ! next_character_index \<noteq> RBRACE
                    then raise_invalid_json_error inp next_character_index
                  else Inr (Some ((key, value), next_character_index)))"

lemma object_loop_round:
  "parse_object_loop N inp index result =
     (case object_step N inp index of
        Inl e \<Rightarrow> Inl e
      | Inr None \<Rightarrow> Inr (JObject result, index)
      | Inr (Some ((key, value), next_index)) \<Rightarrow>
          parse_object_loop N inp next_index (AList.update key value result))"
  by (subst parse_object_loop.simps)
     (simp add: object_step_def Let_def raise_invalid_json_error_def split: sum.splits prod.splits)

lemma object_step_progress:
  assumes "object_step N inp index = Inr (Some (kv, next_index))"
  shows "index < next_index \<and> next_index < length inp"
proof -
  from assms obtain k y v ya where
    il: "index < length inp" and
    ps: "parse_string N inp (skip_whitespace inp (index + 1)) = Inr (k, y)" and
    cl: "skip_whitespace inp (y + 1) < length inp" and
    ip: "inner_parse_json N inp (skip_whitespace inp (skip_whitespace inp (y + 1) + 1)) = Inr (v, ya)" and
    nx: "next_index = skip_whitespace inp (ya + 1)" "next_index < length inp"
    by (auto simp: object_step_def Let_def raise_invalid_json_error_def
             split: if_splits sum.splits prod.splits)
  have "index < skip_whitespace inp (index + 1)" using skip_next[OF il] .
  moreover from parse_string_bounds[OF ps] have "skip_whitespace inp (index + 1) < y" "y < length inp"
    by auto
  moreover have "y < skip_whitespace inp (y + 1)" using skip_next[of y inp] \<open>y < length inp\<close> .
  moreover have "skip_whitespace inp (y + 1) < skip_whitespace inp (skip_whitespace inp (y + 1) + 1)"
    using skip_next[OF cl] .
  moreover from inner_bounds[OF ip]
  have "skip_whitespace inp (skip_whitespace inp (y + 1) + 1) \<le> ya" "ya < length inp" by auto
  moreover have "ya < skip_whitespace inp (ya + 1)" using skip_next[of ya inp] \<open>ya < length inp\<close> .
  ultimately show ?thesis using nx by linarith
qed

text \<open>
  The members of the object text at \<^verbatim>\<open>index\<close>: the keys with their values in the order
  in which the rounds of the loop read them, and the offset of the closing brace.
\<close>

function object_members ::
    "names \<Rightarrow> pystr \<Rightarrow> nat \<Rightarrow> error + ((pystr \<times> json) list \<times> nat)" where
  "object_members N inp index =
     (case object_step N inp index of
        Inl e \<Rightarrow> Inl e
      | Inr None \<Rightarrow> Inr ([], index)
      | Inr (Some (member, next_index)) \<Rightarrow>
          (case object_members N inp next_index of
             Inl e \<Rightarrow> Inl e
           | Inr (members, end_index) \<Rightarrow> Inr (member # members, end_index)))"
  by pat_completeness auto
termination
  by (relation "measure (\<lambda>(N, inp, index). length inp - index)")
     (auto dest!: object_step_progress)

declare object_members.simps [simp del]

lemma object_loop_members:
  "parse_object_loop N inp index result =
     (case object_members N inp index of
        Inl e \<Rightarrow> Inl e
      | Inr (members, end_index) \<Rightarrow>
          Inr (JObject (fold (\<lambda>(key, value). AList.update key value) members result),
               end_index))"
proof (induction N inp index arbitrary: result rule: object_members.induct)
  case (1 N inp index)
  show ?case
  proof (cases "object_step N inp index")
    case (Inl e)
    then show ?thesis
      by (subst object_loop_round, subst object_members.simps) simp
  next
    case (Inr s)
    show ?thesis
    proof (cases s)
      case None
      with Inr show ?thesis
        by (subst object_loop_round, subst object_members.simps) simp
    next
      case (Some mn)
      obtain k v nxt where mn: "mn = ((k, v), nxt)" by (cases mn) auto
      from "1.IH"[OF Inr Some, of "(k, v)" nxt "AList.update k v result"] mn
      have "parse_object_loop N inp nxt (AList.update k v result) =
        (case object_members N inp nxt of
           Inl e \<Rightarrow> Inl e
         | Inr (members, end_index) \<Rightarrow>
             Inr (JObject (fold (\<lambda>(key, value). AList.update key value) members
                             (AList.update k v result)), end_index))"
        by simp
      with Inr Some mn show ?thesis
        by (subst object_loop_round, subst object_members.simps)
           (simp split: sum.splits prod.splits)
    qed
  qed
qed


lemma map_of_fold_update:
  "map_of (fold (\<lambda>(key, value). AList.update key value) members result) =
     map_of result ++ map_of (rev members)"
proof (induction members arbitrary: result)
  case Nil
  then show ?case by simp
next
  case (Cons m members)
  obtain k v where m: "m = (k, v)" by (cases m)
  have "map_of (fold (\<lambda>(key, value). AList.update key value) (m # members) result) =
      map_of (AList.update k v result) ++ map_of (rev members)"
    using Cons.IH[of "AList.update k v result"] m by simp
  also have "\<dots> = map_of result ++ map_of (rev (m # members))"
    by (rule ext) (auto simp: m update_conv' map_add_def split: option.splits)
  finally show ?case .
qed

lemma keys_fold_update:
  "fst ` set (fold (\<lambda>(key, value). AList.update key value) members result) =
     fst ` set result \<union> fst ` set members"
proof (induction members arbitrary: result)
  case Nil
  then show ?case by simp
next
  case (Cons m members)
  obtain k v where m: "m = (k, v)" by (cases m)
  have "set (map fst (AList.update k v result)) = insert k (set (map fst result))"
    unfolding update_keys by auto
  then have u: "fst ` set (AList.update k v result) = insert k (fst ` set result)"
    by (simp only: set_map)
  show ?case using Cons.IH[of "AList.update k v result"]
    by (simp add: m u)
qed

lemma distinct_fold_update:
  "distinct (map fst result) \<Longrightarrow>
   distinct (map fst (fold (\<lambda>(key, value). AList.update key value) members result))"
proof (induction members arbitrary: result)
  case Nil
  then show ?case by simp
next
  case (Cons m members)
  obtain k v where m: "m = (k, v)" by (cases m)
  show ?case using Cons.IH[of "AList.update k v result"] Cons.prems
    by (simp add: m distinct_update)
qed

lemma last_occurrence:
  assumes j: "j < length members"
    and last: "\<forall>j'. j < j' \<and> j' < length members \<longrightarrow> fst (members ! j') \<noteq> fst (members ! j)"
  shows "map_of (rev members) (fst (members ! j)) = Some (snd (members ! j))"
proof -
  define k where "k = fst (members ! j)"
  have sp: "members = take j members @ members ! j # drop (Suc j) members"
    using j by (rule id_take_nth_drop)
  have "k \<notin> fst ` set (drop (Suc j) members)"
  proof
    assume "k \<in> fst ` set (drop (Suc j) members)"
    then obtain x where x: "x \<in> set (drop (Suc j) members)" "fst x = k" by auto
    then obtain n where n: "n < length (drop (Suc j) members)" "drop (Suc j) members ! n = x"
      by (auto simp: in_set_conv_nth)
    then have "Suc j + n < length members" "members ! (Suc j + n) = x" by auto
    with last x(2) show False unfolding k_def by (metis less_add_Suc1 add_Suc)
  qed
  then have none: "map_of (rev (drop (Suc j) members)) k = None"
    by (simp add: map_of_eq_None_iff)
  have "rev members = rev (drop (Suc j) members) @ members ! j # rev (take j members)"
    by (subst sp) simp
  then have "map_of (rev members) k =
      (map_of (members ! j # rev (take j members)) ++ map_of (rev (drop (Suc j) members))) k"
    by (simp only: map_of_append)
  also have "\<dots> = Some (snd (members ! j))"
    using none by (cases "members ! j") (simp add: map_add_def k_def)
  finally show ?thesis unfolding k_def .
qed

lemma object_result:
  assumes "parse_object N inp i = Inr (v, e)"
  shows "i < length inp \<and> inp ! i = LBRACE \<and>
     (\<exists>members. object_members N inp i = Inr (members, e) \<and>
        v = JObject (fold (\<lambda>(key, value). AList.update key value) members []))"
proof -
  from assms have il: "i < length inp" "inp ! i = LBRACE"
    and l: "parse_object_loop N inp i [] = Inr (v, e)"
    by (auto simp: parse_object.simps raise_invalid_json_error_def split: if_splits)
  from l show ?thesis using il
    by (auto simp: object_loop_members split: sum.splits prod.splits)
qed

lemma root_object:
  assumes "parse_json N inp = Inr v" "inp ! skip_whitespace inp 0 = LBRACE"
  shows "\<exists>e. parse_object N inp (skip_whitespace inp 0) = Inr (v, e)"
proof -
  define s where "s = skip_whitespace inp 0"
  from assms(1) have sl: "s < length inp" and b: "parse_json_body N inp s = Inr v"
    by (auto simp: parse_json_def Let_def s_def raise_invalid_json_error_def
             split: if_splits sum.splits error.splits)
  from b obtain e where "inner_parse_json N inp s = Inr (v, e)"
    by (auto simp: parse_json_body_def Let_def raise_invalid_json_error_def
             split: sum.splits if_splits)
  with sl assms(2) have "parse_object N inp s = Inr (v, e)"
    by (simp add: inner_parse_json.simps s_def Let_def)
  then show ?thesis unfolding s_def by blast
qed

lemma last_wins:
  assumes "ob = fold (\<lambda>(key, value). AList.update key value) members []"
  shows "fst ` set ob = fst ` set members \<and> distinct (map fst ob) \<and>
     (\<forall>j<length members.
        (\<forall>j'. j < j' \<and> j' < length members \<longrightarrow> fst (members ! j') \<noteq> fst (members ! j)) \<longrightarrow>
        map_of ob (fst (members ! j)) = Some (snd (members ! j)))"
proof (intro conjI allI impI)
  show "fst ` set ob = fst ` set members" unfolding assms by (simp add: keys_fold_update)
  show "distinct (map fst ob)" unfolding assms by (rule distinct_fold_update) simp
next
  fix j
  assume "j < length members"
    and "\<forall>j'. j < j' \<and> j' < length members \<longrightarrow> fst (members ! j') \<noteq> fst (members ! j)"
  from last_occurrence[OF this]
  show "map_of ob (fst (members ! j)) = Some (snd (members ! j))"
    unfolding assms by (simp add: map_of_fold_update)
qed

text \<open>
  Claim C7. Duplicate keys overwrite earlier ones. Whenever \<open>parse_object\<close> returns, and
  whenever decoding a document whose root is an object returns, the object text has a
  sequence of members (the keys and values that the rounds of the loop read, in the order
  of the text), the result is a mapping whose keys are the keys of the members, each
  once, and every member that is the last one with its key gives the value of that key.
\<close>

theorem duplicate_keys_last_wins:
  "(parse_object N inp i = Inr (v, e) \<longrightarrow>
      (\<exists>members ob. object_members N inp i = Inr (members, e) \<and> v = JObject ob \<and>
         fst ` set ob = fst ` set members \<and> distinct (map fst ob) \<and>
         (\<forall>j<length members.
            (\<forall>j'. j < j' \<and> j' < length members \<longrightarrow>
                  fst (members ! j') \<noteq> fst (members ! j)) \<longrightarrow>
            map_of ob (fst (members ! j)) = Some (snd (members ! j))))) \<and>
   (parse_json N inp = Inr v \<and> inp ! skip_whitespace inp 0 = LBRACE \<longrightarrow>
      (\<exists>members ob e. object_members N inp (skip_whitespace inp 0) = Inr (members, e) \<and>
         v = JObject ob \<and>
         fst ` set ob = fst ` set members \<and> distinct (map fst ob) \<and>
         (\<forall>j<length members.
            (\<forall>j'. j < j' \<and> j' < length members \<longrightarrow>
                  fst (members ! j') \<noteq> fst (members ! j)) \<longrightarrow>
            map_of ob (fst (members ! j)) = Some (snd (members ! j)))))"
proof (intro conjI impI)
  assume "parse_object N inp i = Inr (v, e)"
  from object_result[OF this] obtain members where
    m: "object_members N inp i = Inr (members, e)"
    "v = JObject (fold (\<lambda>(key, value). AList.update key value) members [])" by blast
  from last_wins[OF refl, of members] m
  show "\<exists>members ob. object_members N inp i = Inr (members, e) \<and> v = JObject ob \<and>
         fst ` set ob = fst ` set members \<and> distinct (map fst ob) \<and>
         (\<forall>j<length members.
            (\<forall>j'. j < j' \<and> j' < length members \<longrightarrow>
                  fst (members ! j') \<noteq> fst (members ! j)) \<longrightarrow>
            map_of ob (fst (members ! j)) = Some (snd (members ! j)))"
    by blast
next
  assume "parse_json N inp = Inr v \<and> inp ! skip_whitespace inp 0 = LBRACE"
  then obtain e where "parse_object N inp (skip_whitespace inp 0) = Inr (v, e)"
    using root_object by blast
  from object_result[OF this] obtain members where
    m: "object_members N inp (skip_whitespace inp 0) = Inr (members, e)"
    "v = JObject (fold (\<lambda>(key, value). AList.update key value) members [])" by blast
  from last_wins[OF refl, of members] m
  show "\<exists>members ob e. object_members N inp (skip_whitespace inp 0) = Inr (members, e) \<and>
         v = JObject ob \<and>
         fst ` set ob = fst ` set members \<and> distinct (map fst ob) \<and>
         (\<forall>j<length members.
            (\<forall>j'. j < j' \<and> j' < length members \<longrightarrow>
                  fst (members ! j') \<noteq> fst (members ! j)) \<longrightarrow>
            map_of ob (fst (members ! j)) = Some (snd (members ! j)))"
    by blast
qed


text \<open>
  Witness for C7: the document \<^verbatim>\<open>{"a": 1, "a": 2}\<close>. Its members are the key \<^verbatim>\<open>a\<close> with 1
  and the key \<^verbatim>\<open>a\<close> with 2, and it decodes to the mapping of \<^verbatim>\<open>a\<close> to 2. The document
  \<^verbatim>\<open>{"a": 1, "b": 2, "a": 3}\<close> decodes to the mapping of \<^verbatim>\<open>a\<close> to 3 and \<^verbatim>\<open>b\<close> to 2.
\<close>

theorem duplicate_keys_last_wins_witness:
  \<open>parse_json no_names (str_of ''{"a": 1, "a": 2}'') = Inr (JObject [(str_of ''a'', JInt 2)]) \<and>
   str_of ''{"a": 1, "a": 2}'' ! skip_whitespace (str_of ''{"a": 1, "a": 2}'') 0 = LBRACE \<and>
   object_members no_names (str_of ''{"a": 1, "a": 2}'')
       (skip_whitespace (str_of ''{"a": 1, "a": 2}'') 0) =
     Inr ([(str_of ''a'', JInt 1), (str_of ''a'', JInt 2)], 15) \<and>
   parse_json no_names (str_of ''{"a": 1, "b": 2, "a": 3}'') =
     Inr (JObject [(str_of ''a'', JInt 3), (str_of ''b'', JInt 2)]) \<and>
   (\<exists>members ob e.
      object_members no_names (str_of ''{"a": 1, "a": 2}'')
          (skip_whitespace (str_of ''{"a": 1, "a": 2}'') 0) = Inr (members, e) \<and>
      JObject [(str_of ''a'', JInt 2)] = JObject ob \<and>
      fst ` set ob = fst ` set members \<and> distinct (map fst ob) \<and>
      (\<forall>j<length members.
         (\<forall>j'. j < j' \<and> j' < length members \<longrightarrow>
               fst (members ! j') \<noteq> fst (members ! j)) \<longrightarrow>
         map_of ob (fst (members ! j)) = Some (snd (members ! j))))\<close>
proof -
  have a: \<open>parse_json no_names (str_of ''{"a": 1, "a": 2}'') =
      Inr (JObject [(str_of ''a'', JInt 2)])\<close>
    by (simp add: eval_simps)
  have b: \<open>str_of ''{"a": 1, "a": 2}'' ! skip_whitespace (str_of ''{"a": 1, "a": 2}'') 0 =
      LBRACE\<close>
    by (simp add: eval_simps)
  have c: \<open>object_members no_names (str_of ''{"a": 1, "a": 2}'')
       (skip_whitespace (str_of ''{"a": 1, "a": 2}'') 0) =
     Inr ([(str_of ''a'', JInt 1), (str_of ''a'', JInt 2)], 15)\<close>
    by (simp add: eval_simps object_members.simps object_step_def)
  have d: \<open>parse_json no_names (str_of ''{"a": 1, "b": 2, "a": 3}'') =
     Inr (JObject [(str_of ''a'', JInt 3), (str_of ''b'', JInt 2)])\<close>
    by (simp add: eval_simps)
  from duplicate_keys_last_wins [of no_names \<open>str_of ''{"a": 1, "a": 2}''\<close> 0
      \<open>JObject [(str_of ''a'', JInt 2)]\<close> 15] a b
  have e: \<open>\<exists>members ob e.
      object_members no_names (str_of ''{"a": 1, "a": 2}'')
          (skip_whitespace (str_of ''{"a": 1, "a": 2}'') 0) = Inr (members, e) \<and>
      JObject [(str_of ''a'', JInt 2)] = JObject ob \<and>
      fst ` set ob = fst ` set members \<and> distinct (map fst ob) \<and>
      (\<forall>j<length members.
         (\<forall>j'. j < j' \<and> j' < length members \<longrightarrow>
               fst (members ! j') \<noteq> fst (members ! j)) \<longrightarrow>
         map_of ob (fst (members ! j)) = Some (snd (members ! j)))\<close>
    by blast
  from a b c d e show ?thesis by blast
qed

section \<open>The string parser\<close>































end
